theory Spec2Isabelle
  imports Main
begin

section \<open>Strings\<close>

text \<open>
  Go strings are byte strings; they are modelled as \<open>string\<close> (lists of 8-bit characters).

  \<open>strings.TrimSpace\<close> removes the leading and the trailing white space of a string, where
  white space is what \<open>unicode.IsSpace\<close> accepts: the ASCII bytes tab, line feed, vertical
  tab, form feed, carriage return and space, and the code points U+0085, U+00A0, U+1680,
  U+2000 to U+200A, U+2028, U+2029, U+202F, U+205F and U+3000, which a string holds in their
  UTF-8 encoding. A string starts with such a code point exactly when it starts with the
  bytes of its encoding, and ends with it exactly when it ends with them.
\<close>

definition isSpace :: "char \<Rightarrow> bool" where
  "isSpace c \<longleftrightarrow> c = CHR 0x09 \<or> c = CHR 0x0A \<or> c = CHR 0x0B \<or> c = CHR 0x0C \<or> c = CHR 0x0D \<or> c = CHR '' ''"

definition unicodeSpace :: "string list" where
  "unicodeSpace =
     [[CHR 0xC2, CHR 0x85], [CHR 0xC2, CHR 0xA0], [CHR 0xE1, CHR 0x9A, CHR 0x80],
      [CHR 0xE2, CHR 0x80, CHR 0x80], [CHR 0xE2, CHR 0x80, CHR 0x81], [CHR 0xE2, CHR 0x80, CHR 0x82],
      [CHR 0xE2, CHR 0x80, CHR 0x83], [CHR 0xE2, CHR 0x80, CHR 0x84], [CHR 0xE2, CHR 0x80, CHR 0x85],
      [CHR 0xE2, CHR 0x80, CHR 0x86], [CHR 0xE2, CHR 0x80, CHR 0x87], [CHR 0xE2, CHR 0x80, CHR 0x88],
      [CHR 0xE2, CHR 0x80, CHR 0x89], [CHR 0xE2, CHR 0x80, CHR 0x8A], [CHR 0xE2, CHR 0x80, CHR 0xA8],
      [CHR 0xE2, CHR 0x80, CHR 0xA9], [CHR 0xE2, CHR 0x80, CHR 0xAF], [CHR 0xE2, CHR 0x81, CHR 0x9F],
      [CHR 0xE3, CHR 0x80, CHR 0x80]]"

text \<open>
  The number of bytes of the white space that \<open>s\<close> starts with (one ASCII byte or one of the
  encodings \<open>encs\<close>), 0 when it starts with none; \<open>trim\<close> removes white space from the front
  for as long as there is some. The trailing white space is the leading white space of the
  reversed string, with the encodings reversed.
\<close>

definition spaceWidth :: "string list \<Rightarrow> string \<Rightarrow> nat" where
  "spaceWidth encs s =
     (case s of
        [] \<Rightarrow> 0
      | c # _ \<Rightarrow>
          if isSpace c then 1
          else (case find (\<lambda>u. take (length u) s = u) encs of None \<Rightarrow> 0 | Some u \<Rightarrow> length u))"

function trim :: "string list \<Rightarrow> string \<Rightarrow> string" where
  "trim encs s = (if spaceWidth encs s = 0 then s else trim encs (drop (spaceWidth encs s) s))"
  by pat_completeness auto
termination
proof (relation "measure (\<lambda>(encs, s). length s)")
  show "wf (measure (\<lambda>(encs, s). length s))" by simp
next
  fix encs :: "string list" and s :: string
  assume "spaceWidth encs s \<noteq> 0"
  moreover from this have "s \<noteq> []" by (auto simp: spaceWidth_def)
  ultimately show "((encs, drop (spaceWidth encs s) s), (encs, s)) \<in> measure (\<lambda>(encs, s). length s)"
    by simp
qed

declare trim.simps [simp del]

definition TrimSpace :: "string \<Rightarrow> string" where
  "TrimSpace s = rev (trim (map rev unicodeSpace) (rev (trim unicodeSpace s)))"

text \<open>An ASCII byte that is not white space: no white space starts or ends with it.\<close>

definition plainByte :: "char \<Rightarrow> bool" where
  "plainByte c \<longleftrightarrow> \<not> isSpace c \<and> (of_char c :: nat) < 128"

text \<open>
  \<open>strings.ToUpper\<close> maps \<open>a\<close>..\<open>z\<close> to \<open>A\<close>..\<open>Z\<close>. This is the function on ASCII strings (a
  request method is one); on a string with a byte from 0x80 on, \<open>strings.ToUpper\<close> maps by
  the case tables of Unicode, which are not part of the model.
\<close>

definition upperChar :: "char \<Rightarrow> char" where
  "upperChar c = (if 97 \<le> (of_char c :: nat) \<and> (of_char c :: nat) \<le> 122
                  then char_of ((of_char c :: nat) - 32) else c)"

definition ToUpper :: "string \<Rightarrow> string" where
  "ToUpper s = map upperChar s"

definition HasPrefix :: "string \<Rightarrow> string \<Rightarrow> bool" where
  "HasPrefix s p \<longleftrightarrow> take (length p) s = p"

definition HasSuffix :: "string \<Rightarrow> string \<Rightarrow> bool" where
  "HasSuffix s p \<longleftrightarrow> length p \<le> length s \<and> drop (length s - length p) s = p"

text \<open>\<open>strings.Index\<close> for a one-byte separator: the index of its first occurrence.\<close>

fun Index :: "string \<Rightarrow> char \<Rightarrow> nat option" where
  "Index [] c = None"
| "Index (x # xs) c = (if x = c then Some 0 else map_option Suc (Index xs c))"

text \<open>\<open>strings.Split\<close> for a one-byte separator; the result is never empty.\<close>

fun Split :: "string \<Rightarrow> char \<Rightarrow> string list" where
  "Split [] c = [[]]"
| "Split (x # xs) c =
     (if x = c then [] # Split xs c
      else (case Split xs c of [] \<Rightarrow> [[x]] | y # ys \<Rightarrow> (x # y) # ys))"

text \<open>\<open>strings.SplitN(s, sep, 2)\<close> for a one-byte separator: one part when the separator
  does not occur, else the text before and the text after its first occurrence.\<close>

definition SplitN2 :: "string \<Rightarrow> char \<Rightarrow> string list" where
  "SplitN2 s c = (case Index s c of None \<Rightarrow> [s] | Some i \<Rightarrow> [take i s, drop (Suc i) s])"

section \<open>Rules and the rule parser (package router)\<close>

text \<open>
  The \<open>Rule\<close> interface has ten implementations: seven matchers and the three combinators.
  A compiled \<open>*regexp.Regexp\<close> is represented by the pattern text it was compiled from.
\<close>

datatype Rule =
    HostMatcher string
  | PathMatcher string
  | PathPrefixMatcher string
  | MethodMatcher "string list"
  | HeaderMatcher string string
  | HeaderRegexMatcher string string
  | QueryMatcher string string
  | AndRule Rule Rule
  | OrRule Rule Rule
  | NotRule Rule

datatype parse_error =
    ExpectedRParen
  | ExpectedMatcherName
  | ExpectedLBrace
  | UnmatchedBraces
  | InvalidHeaderFormat
  | InvalidHeaderRegexFormat
  | InvalidRegexPattern
  | InvalidQueryFormat
  | UnknownMatcher string

text \<open>
  The parser struct holds the input and a cursor \<open>pos\<close> that only moves forward; no method
  reads before \<open>pos\<close>. The state is represented by the unread remainder \<open>input[pos:]\<close>, so
  \<open>p.pos += n\<close> is \<open>drop n\<close>. Errors keep the kind of the failure (and the matcher name);
  the position printed in the message is \<open>len(input)\<close> minus the length of the remainder.
  The first parameter \<open>rx\<close> of the parsing functions stands for \<open>regexp.Compile\<close>: it tells
  whether a pattern compiles.
\<close>

definition skipWhitespace :: "string \<Rightarrow> string" where
  "skipWhitespace s =
     dropWhile (\<lambda>c. c = CHR '' '' \<or> c = CHR 0x09 \<or> c = CHR 0x0A \<or> c = CHR 0x0D) s"

definition matchChar :: "char \<Rightarrow> string \<Rightarrow> bool" where
  "matchChar ch s = (case s of [] \<Rightarrow> False | c # _ \<Rightarrow> c = ch)"

definition matchString :: "string \<Rightarrow> string \<Rightarrow> bool" where
  "matchString m s \<longleftrightarrow> take (length m) s = m"

definition createMatcher :: "(string \<Rightarrow> bool) \<Rightarrow> string \<Rightarrow> string \<Rightarrow> parse_error + Rule" where
  "createMatcher rx name val =
     (if name = ''Host'' then Inr (HostMatcher val)
      else if name = ''Path'' then Inr (PathMatcher val)
      else if name = ''PathPrefix'' then Inr (PathPrefixMatcher val)
      else if name = ''Method'' then Inr (MethodMatcher (map TrimSpace (Split val CHR '','')))
      else if name = ''Header'' then
        (case SplitN2 val CHR ''='' of
           [k, v] \<Rightarrow> Inr (HeaderMatcher (TrimSpace k) (TrimSpace v))
         | _ \<Rightarrow> Inl InvalidHeaderFormat)
      else if name = ''HeaderRegex'' then
        (case SplitN2 val CHR ''='' of
           [k, v] \<Rightarrow> (if rx (TrimSpace v) then Inr (HeaderRegexMatcher (TrimSpace k) (TrimSpace v))
                      else Inl InvalidRegexPattern)
         | _ \<Rightarrow> Inl InvalidHeaderRegexFormat)
      else if name = ''Query'' then
        (case SplitN2 val CHR ''='' of
           [k, v] \<Rightarrow> Inr (QueryMatcher (TrimSpace k) (TrimSpace v))
         | _ \<Rightarrow> Inl InvalidQueryFormat)
      else Inl (UnknownMatcher name))"

text \<open>
  The brace loop of \<open>parseMatcher\<close>: \<open>scanValue depth s\<close> runs the loop from nesting depth
  \<open>depth\<close> on the remainder \<open>s\<close> and returns the final depth, the bytes stepped over (the
  value) and the remainder, which starts at the closing brace when the final depth is 0.
\<close>

fun scanValue :: "nat \<Rightarrow> string \<Rightarrow> nat \<times> string \<times> string" where
  "scanValue depth [] = (depth, [], [])"
| "scanValue depth (c # cs) =
     (if depth = 0 then (depth, [], c # cs)
      else let depth' = (if c = CHR ''{'' then depth + 1
                         else if c = CHR ''}'' then depth - 1 else depth)
           in if depth' > 0
              then (case scanValue depth' cs of (d, v, r) \<Rightarrow> (d, c # v, r))
              else (depth', [], c # cs))"

definition parseMatcher :: "(string \<Rightarrow> bool) \<Rightarrow> string \<Rightarrow> parse_error + (Rule \<times> string)" where
  "parseMatcher rx s =
     (let s0 = skipWhitespace s;
          name = takeWhile (\<lambda>c. c \<noteq> CHR ''{'' \<and> c \<noteq> CHR '' '') s0;
          s1 = dropWhile (\<lambda>c. c \<noteq> CHR ''{'' \<and> c \<noteq> CHR '' '') s0
      in if name = [] then Inl ExpectedMatcherName
         else let s2 = skipWhitespace s1
              in if \<not> matchChar CHR ''{'' s2 then Inl ExpectedLBrace
                 else (case scanValue 1 (drop 1 s2) of
                         (depth, val, s3) \<Rightarrow>
                           if depth \<noteq> 0 then Inl UnmatchedBraces
                           else (case createMatcher rx name val of
                                   Inl e \<Rightarrow> Inl e
                                 | Inr rule \<Rightarrow> Inr (rule, drop 1 s3))))"

function parseOr :: "(string \<Rightarrow> bool) \<Rightarrow> string \<Rightarrow> parse_error + (Rule \<times> string)"
  and parseOrLoop :: "(string \<Rightarrow> bool) \<Rightarrow> Rule \<Rightarrow> string \<Rightarrow> parse_error + (Rule \<times> string)"
  and parseAnd :: "(string \<Rightarrow> bool) \<Rightarrow> string \<Rightarrow> parse_error + (Rule \<times> string)"
  and parseAndLoop :: "(string \<Rightarrow> bool) \<Rightarrow> Rule \<Rightarrow> string \<Rightarrow> parse_error + (Rule \<times> string)"
  and parseUnary :: "(string \<Rightarrow> bool) \<Rightarrow> string \<Rightarrow> parse_error + (Rule \<times> string)"
where
  "parseOr rx s =
     (case parseAnd rx s of
        Inl e \<Rightarrow> Inl e
      | Inr (left, s1) \<Rightarrow> parseOrLoop rx left s1)"
| "parseOrLoop rx left s =
     (let s1 = skipWhitespace s
      in if \<not> matchString ''||'' s1 then Inr (left, s1)
         else (case parseAnd rx (skipWhitespace (drop 2 s1)) of
                 Inl e \<Rightarrow> Inl e
               | Inr (right, s2) \<Rightarrow> parseOrLoop rx (OrRule left right) s2))"
| "parseAnd rx s =
     (case parseUnary rx s of
        Inl e \<Rightarrow> Inl e
      | Inr (left, s1) \<Rightarrow> parseAndLoop rx left s1)"
| "parseAndLoop rx left s =
     (let s1 = skipWhitespace s
      in if \<not> matchString ''&&'' s1 then Inr (left, s1)
         else (case parseUnary rx (skipWhitespace (drop 2 s1)) of
                 Inl e \<Rightarrow> Inl e
               | Inr (right, s2) \<Rightarrow> parseAndLoop rx (AndRule left right) s2))"
| "parseUnary rx s =
     (let s1 = skipWhitespace s
      in if matchChar CHR ''!'' s1 then
           (case parseUnary rx (skipWhitespace (drop 1 s1)) of
              Inl e \<Rightarrow> Inl e
            | Inr (inner, s2) \<Rightarrow> Inr (NotRule inner, s2))
         else if matchChar CHR ''('' s1 then
           (case parseOr rx (skipWhitespace (drop 1 s1)) of
              Inl e \<Rightarrow> Inl e
            | Inr (rule, s2) \<Rightarrow>
                (let s3 = skipWhitespace s2
                 in if \<not> matchChar CHR '')'' s3 then Inl ExpectedRParen
                    else Inr (rule, drop 1 s3)))
         else parseMatcher rx s1)"
  by pat_completeness auto


text \<open>
  Every call returns a remainder no longer than its argument. This is what makes the
  recursion of the five functions well-founded: each loop iteration and each nested call
  starts to the right of a consumed operator, \<open>!\<close> or parenthesis.
\<close>

lemma skipWhitespace_length: "length (skipWhitespace s) \<le> length s"
  by (simp add: skipWhitespace_def length_dropWhile_le)

lemma scanValue_length: "scanValue d s = (d', v, r) \<Longrightarrow> length r \<le> length s"
proof (induction s arbitrary: d d' v r)
  case Nil
  then show ?case by simp
next
  case (Cons c cs)
  show ?case
  proof (cases "d = 0")
    case True
    with Cons.prems show ?thesis by simp
  next
    case False
    let ?d = "(if c = CHR ''{'' then d + 1 else if c = CHR ''}'' then d - 1 else d)"
    show ?thesis
    proof (cases "?d > 0")
      case True
      obtain d2 v2 r2 where sv: "scanValue ?d cs = (d2, v2, r2)"
        by (cases "scanValue ?d cs") auto
      with Cons.prems False True have "r = r2"
        by (simp add: Let_def split: if_splits)
      with Cons.IH[OF sv] show ?thesis by simp
    next
      case F2: False
      with Cons.prems False show ?thesis
        by (simp add: Let_def split: if_splits)
    qed
  qed
qed

lemma parseMatcher_length:
  assumes "parseMatcher rx s = Inr (t, r)"
  shows "length r \<le> length s"
proof -
  let ?s0 = "skipWhitespace s"
  let ?s1 = "dropWhile (\<lambda>c. c \<noteq> CHR ''{'' \<and> c \<noteq> CHR '' '') ?s0"
  let ?s2 = "skipWhitespace ?s1"
  obtain d v s3 where sv: "scanValue 1 (drop 1 ?s2) = (d, v, s3)"
    by (cases "scanValue 1 (drop 1 ?s2)") auto
  from assms sv have "r = drop 1 s3"
    by (auto simp: parseMatcher_def Let_def split: if_splits sum.splits)
  moreover have "length s3 \<le> length (drop 1 ?s2)"
    using sv by (rule scanValue_length)
  moreover have "length ?s2 \<le> length ?s1" by (rule skipWhitespace_length)
  moreover have "length ?s1 \<le> length ?s0" by (rule length_dropWhile_le)
  moreover have "length ?s0 \<le> length s" by (rule skipWhitespace_length)
  ultimately show ?thesis by simp
qed

lemma parse_length_dom:
  "parseOr_parseOrLoop_parseAnd_parseAndLoop_parseUnary_dom (Inl (Inl (rx, s))) \<Longrightarrow>
     (\<forall>t r. parseOr rx s = Inr (t, r) \<longrightarrow> length r \<le> length s)"
  "parseOr_parseOrLoop_parseAnd_parseAndLoop_parseUnary_dom (Inl (Inr (rx, left, s))) \<Longrightarrow>
     (\<forall>t r. parseOrLoop rx left s = Inr (t, r) \<longrightarrow> length r \<le> length s)"
  "parseOr_parseOrLoop_parseAnd_parseAndLoop_parseUnary_dom (Inr (Inl (rx, s))) \<Longrightarrow>
     (\<forall>t r. parseAnd rx s = Inr (t, r) \<longrightarrow> length r \<le> length s)"
  "parseOr_parseOrLoop_parseAnd_parseAndLoop_parseUnary_dom (Inr (Inr (Inl (rx, left, s)))) \<Longrightarrow>
     (\<forall>t r. parseAndLoop rx left s = Inr (t, r) \<longrightarrow> length r \<le> length s)"
  "parseOr_parseOrLoop_parseAnd_parseAndLoop_parseUnary_dom (Inr (Inr (Inr (rx, s)))) \<Longrightarrow>
     (\<forall>t r. parseUnary rx s = Inr (t, r) \<longrightarrow> length r \<le> length s)"
proof (induct rule: parseOr_parseOrLoop_parseAnd_parseAndLoop_parseUnary.pinduct)
  case (1 rx s)
  show ?case
  proof (intro allI impI)
    fix t r assume a: "parseOr rx s = Inr (t, r)"
    from a 1(1) obtain left s1 where l: "parseAnd rx s = Inr (left, s1)"
      and r: "parseOrLoop rx left s1 = Inr (t, r)"
      by (auto simp: parseOr.psimps split: sum.splits)
    from 1(2) l have "length s1 \<le> length s" by blast
    moreover from 1(3)[OF l refl] r have "length r \<le> length s1" by blast
    ultimately show "length r \<le> length s" by simp
  qed
next
  case (2 rx left s)
  show ?case
  proof (intro allI impI)
    fix t r assume a: "parseOrLoop rx left s = Inr (t, r)"
    let ?s1 = "skipWhitespace s"
    show "length r \<le> length s"
    proof (cases "matchString ''||'' ?s1")
      case False
      with a 2(1) have "r = ?s1" by (simp add: parseOrLoop.psimps Let_def)
      then show ?thesis by (simp add: skipWhitespace_length)
    next
      case True
      with a 2(1) obtain right s2 where
        l: "parseAnd rx (skipWhitespace (drop 2 ?s1)) = Inr (right, s2)"
        and r: "parseOrLoop rx (OrRule left right) s2 = Inr (t, r)"
        by (auto simp: parseOrLoop.psimps Let_def split: sum.splits)
      from 2(2)[OF refl _] True l have "length s2 \<le> length (skipWhitespace (drop 2 ?s1))" by blast
      moreover from 2(3)[OF refl _ l refl] True r have "length r \<le> length s2" by blast
      moreover have "length (skipWhitespace (drop 2 ?s1)) \<le> length s"
        using skipWhitespace_length[of "drop 2 ?s1"] skipWhitespace_length[of s] by simp
      ultimately show ?thesis by simp
    qed
  qed
next
  case (3 rx s)
  show ?case
  proof (intro allI impI)
    fix t r assume a: "parseAnd rx s = Inr (t, r)"
    from a 3(1) obtain left s1 where l: "parseUnary rx s = Inr (left, s1)"
      and r: "parseAndLoop rx left s1 = Inr (t, r)"
      by (auto simp: parseAnd.psimps split: sum.splits)
    from 3(2) l have "length s1 \<le> length s" by blast
    moreover from 3(3)[OF l refl] r have "length r \<le> length s1" by blast
    ultimately show "length r \<le> length s" by simp
  qed
next
  case (4 rx left s)
  show ?case
  proof (intro allI impI)
    fix t r assume a: "parseAndLoop rx left s = Inr (t, r)"
    let ?s1 = "skipWhitespace s"
    show "length r \<le> length s"
    proof (cases "matchString ''&&'' ?s1")
      case False
      with a 4(1) have "r = ?s1" by (simp add: parseAndLoop.psimps Let_def)
      then show ?thesis by (simp add: skipWhitespace_length)
    next
      case True
      with a 4(1) obtain right s2 where
        l: "parseUnary rx (skipWhitespace (drop 2 ?s1)) = Inr (right, s2)"
        and r: "parseAndLoop rx (AndRule left right) s2 = Inr (t, r)"
        by (auto simp: parseAndLoop.psimps Let_def split: sum.splits)
      from 4(2)[OF refl _] True l have "length s2 \<le> length (skipWhitespace (drop 2 ?s1))" by blast
      moreover from 4(3)[OF refl _ l refl] True r have "length r \<le> length s2" by blast
      moreover have "length (skipWhitespace (drop 2 ?s1)) \<le> length s"
        using skipWhitespace_length[of "drop 2 ?s1"] skipWhitespace_length[of s] by simp
      ultimately show ?thesis by simp
    qed
  qed
next
  case (5 rx s)
  show ?case
  proof (intro allI impI)
    fix t r assume a: "parseUnary rx s = Inr (t, r)"
    let ?s1 = "skipWhitespace s"
    let ?s2 = "skipWhitespace (drop 1 ?s1)"
    have s2: "length ?s2 \<le> length s"
      using skipWhitespace_length[of "drop 1 ?s1"] skipWhitespace_length[of s] by simp
    show "length r \<le> length s"
    proof (cases "matchChar CHR ''!'' ?s1")
      case True
      with a 5(1) obtain inner where "parseUnary rx ?s2 = Inr (inner, r)"
        by (auto simp: parseUnary.psimps Let_def split: sum.splits)
      with 5(2)[OF refl True] have "length r \<le> length ?s2" by blast
      with s2 show ?thesis by simp
    next
      case nb: False
      show ?thesis
      proof (cases "matchChar CHR ''('' ?s1")
        case True
        with nb a 5(1) obtain rule s3 where l: "parseOr rx ?s2 = Inr (rule, s3)"
          and r: "r = drop 1 (skipWhitespace s3)"
          by (auto simp: parseUnary.psimps Let_def split: sum.splits if_splits)
        from 5(3)[OF refl nb True] l have "length s3 \<le> length ?s2" by blast
        with r s2 skipWhitespace_length[of s3] show ?thesis by simp
      next
        case False
        with nb a 5(1) have "parseMatcher rx ?s1 = Inr (t, r)"
          by (simp add: parseUnary.psimps Let_def)
        from parseMatcher_length[OF this] skipWhitespace_length[of s] show ?thesis by simp
      qed
    qed
  qed
qed


lemma matchString2_length: "matchString [a, b] s \<Longrightarrow> length (skipWhitespace (drop 2 s)) + 2 \<le> length s"
proof -
  assume "matchString [a, b] s"
  then have "2 \<le> length s"
    by (cases s; cases "tl s") (auto simp: matchString_def)
  with skipWhitespace_length[of "drop 2 s"] show ?thesis by simp
qed

lemma matchChar_length: "matchChar c s \<Longrightarrow> length (skipWhitespace (drop 1 s)) + 1 \<le> length s"
proof -
  assume "matchChar c s"
  then have "1 \<le> length s"
    by (cases s) (auto simp: matchChar_def)
  with skipWhitespace_length[of "drop 1 s"] show ?thesis by simp
qed

termination parseOr
proof (relation "measure (\<lambda>x. case x of
          Inl (Inl (rx, s)) \<Rightarrow> 3 * length s + 2
        | Inl (Inr (rx, l, s)) \<Rightarrow> 3 * length s
        | Inr (Inl (rx, s)) \<Rightarrow> 3 * length s + 1
        | Inr (Inr (Inl (rx, l, s))) \<Rightarrow> 3 * length s
        | Inr (Inr (Inr (rx, s))) \<Rightarrow> 3 * length s)", goal_cases)
  case 1
  show ?case by simp
next
  case (2 rx s)
  show ?case by simp
next
  case prems: (3 rx s x left s1)
  show ?case using prems parse_length_dom(3)[of rx s] by auto
next
  case prems: (4 rx left s x)
  show ?case
    using prems matchString2_length[of "CHR ''|''" "CHR ''|''" "skipWhitespace s"] skipWhitespace_length[of s]
    by auto
next
  case prems: (5 rx left s x xa right s2)
  show ?case
    using prems parse_length_dom(3)[of rx "skipWhitespace (drop 2 (skipWhitespace s))"]
      matchString2_length[of "CHR ''|''" "CHR ''|''" "skipWhitespace s"] skipWhitespace_length[of s]
    by auto
next
  case (6 rx s)
  show ?case by simp
next
  case prems: (7 rx s x left s1)
  show ?case using prems parse_length_dom(5)[of rx s] by auto
next
  case prems: (8 rx left s x)
  show ?case
    using prems matchString2_length[of "CHR ''&''" "CHR ''&''" "skipWhitespace s"] skipWhitespace_length[of s]
    by auto
next
  case prems: (9 rx left s x xa right s2)
  show ?case
    using prems parse_length_dom(5)[of rx "skipWhitespace (drop 2 (skipWhitespace s))"]
      matchString2_length[of "CHR ''&''" "CHR ''&''" "skipWhitespace s"] skipWhitespace_length[of s]
    by auto
next
  case prems: (10 rx s x)
  show ?case
    using prems matchChar_length[of "CHR ''!''" "skipWhitespace s"] skipWhitespace_length[of s]
    by auto
next
  case prems: (11 rx s x)
  show ?case
    using prems matchChar_length[of "CHR ''(''" "skipWhitespace s"] skipWhitespace_length[of s]
    by auto
qed

declare parseOr.simps [simp del] parseOrLoop.simps [simp del] parseAnd.simps [simp del]
  parseAndLoop.simps [simp del] parseUnary.simps [simp del]

text \<open>\<open>parser.parse\<close> is \<open>parseOr\<close>; \<open>ParseRule\<close> trims the rule and returns the tree only:
  the cursor is dropped, nothing looks at what is left of the input.\<close>

definition parse :: "(string \<Rightarrow> bool) \<Rightarrow> string \<Rightarrow> parse_error + (Rule \<times> string)" where
  "parse rx s = parseOr rx s"

definition ParseRule :: "(string \<Rightarrow> bool) \<Rightarrow> string \<Rightarrow> parse_error + Rule" where
  "ParseRule rx ruleStr =
     (case parse rx (TrimSpace ruleStr) of Inl e \<Rightarrow> Inl e | Inr (rule, rest) \<Rightarrow> Inr rule)"


section \<open>Requests (net/http)\<close>

text \<open>
  An \<open>http.Header\<close> is a map from canonical header names to the list of their values. It is
  modelled as an association list with distinct keys, the values of a key in the order they
  were added. \<open>Header.Get\<close> and \<open>Header.Add\<close> canonicalise the name they are given
  (\<open>textproto.CanonicalMIMEHeaderKey\<close>: a name made of token bytes only gets an upper-case
  first letter and an upper-case letter after each hyphen, all other letters in lower case;
  any other name is left as it is).
\<close>

type_synonym header = "(string \<times> string list) list"

definition validHeaderFieldByte :: "char \<Rightarrow> bool" where
  "validHeaderFieldByte c \<longleftrightarrow>
     (let n = (of_char c :: nat)
      in (48 \<le> n \<and> n \<le> 57) \<or> (65 \<le> n \<and> n \<le> 90) \<or> (97 \<le> n \<and> n \<le> 122)
         \<or> c \<in> set ''!#$%&*+-.^_`|~'' \<or> n = 39)"

definition lowerChar :: "char \<Rightarrow> char" where
  "lowerChar c = (if 65 \<le> (of_char c :: nat) \<and> (of_char c :: nat) \<le> 90
                  then char_of ((of_char c :: nat) + 32) else c)"

fun canonicalLoop :: "bool \<Rightarrow> string \<Rightarrow> string" where
  "canonicalLoop upper [] = []"
| "canonicalLoop upper (c # cs) =
     (let c' = (if upper then upperChar c else lowerChar c)
      in c' # canonicalLoop (c' = CHR ''-'') cs)"

definition CanonicalMIMEHeaderKey :: "string \<Rightarrow> string" where
  "CanonicalMIMEHeaderKey s = (if list_all validHeaderFieldByte s then canonicalLoop True s else s)"

definition Header_Get :: "header \<Rightarrow> string \<Rightarrow> string" where
  "Header_Get h key =
     (case map_of h (CanonicalMIMEHeaderKey key) of
        None \<Rightarrow> []
      | Some [] \<Rightarrow> []
      | Some (v # _) \<Rightarrow> v)"

definition Header_Add :: "header \<Rightarrow> string \<Rightarrow> string \<Rightarrow> header" where
  "Header_Add h key v =
     (let k = CanonicalMIMEHeaderKey key
      in case map_of h k of
           None \<Rightarrow> h @ [(k, [v])]
         | Some vs \<Rightarrow> map (\<lambda>(k', vs'). if k' = k then (k', vs' @ [v]) else (k', vs')) h)"

definition Header_Set :: "header \<Rightarrow> string \<Rightarrow> string \<Rightarrow> header" where
  "Header_Set h key v =
     (let k = CanonicalMIMEHeaderKey key
      in case map_of h k of
           None \<Rightarrow> h @ [(k, [v])]
         | Some vs \<Rightarrow> map (\<lambda>(k', vs'). if k' = k then (k', [v]) else (k', vs')) h)"

text \<open>
  Of \<open>*url.URL\<close> the program reads the fields \<open>Host\<close> and \<open>Path\<close> and the results of the
  methods \<open>Query()\<close> (the parsed query, a map from keys to value lists) and \<open>RequestURI()\<close>.
  Of \<open>*http.Request\<close> it reads \<open>Method\<close>, \<open>Host\<close>, \<open>URL\<close>, \<open>Header\<close>, \<open>Body\<close> and whether
  \<open>TLS\<close> is nil.
\<close>

record url =
  url_Host :: string
  url_Path :: string
  url_Query :: "(string \<times> string list) list"
  url_RequestURI :: string

record request =
  req_Method :: string
  req_Host :: string
  req_URL :: url
  req_Header :: header
  req_TLS :: bool
  req_Body :: string

text \<open>\<open>url.Values.Get\<close>: the first value of the key, or the empty string.\<close>

definition Values_Get :: "(string \<times> string list) list \<Rightarrow> string \<Rightarrow> string" where
  "Values_Get vs key = (case map_of vs key of None \<Rightarrow> [] | Some [] \<Rightarrow> [] | Some (v # _) \<Rightarrow> v)"

section \<open>Matchers (package matchers) and rule evaluation\<close>

definition HostMatcher_Match :: "string \<Rightarrow> request \<Rightarrow> bool" where
  "HostMatcher_Match Pattern req =
     (let host = req_Host req;
          host = (if host = [] then url_Host (req_URL req) else host);
          host = (case Index host CHR '':'' of None \<Rightarrow> host | Some idx \<Rightarrow> take idx host)
      in if Pattern = host then True
         else if HasPrefix Pattern ''*.'' then
           (let domain = drop 2 Pattern
            in HasSuffix host (''.'' @ domain) \<or> host = domain)
         else False)"

definition PathMatcher_Match :: "string \<Rightarrow> request \<Rightarrow> bool" where
  "PathMatcher_Match Path req \<longleftrightarrow> url_Path (req_URL req) = Path"

definition PathPrefixMatcher_Match :: "string \<Rightarrow> request \<Rightarrow> bool" where
  "PathPrefixMatcher_Match Prefix req \<longleftrightarrow> HasPrefix (url_Path (req_URL req)) Prefix"

definition MethodMatcher_Match :: "string list \<Rightarrow> request \<Rightarrow> bool" where
  "MethodMatcher_Match Methods req =
     (let method = ToUpper (req_Method req)
      in list_ex (\<lambda>allowed. ToUpper allowed = method) Methods)"

definition HeaderMatcher_Match :: "string \<Rightarrow> string \<Rightarrow> request \<Rightarrow> bool" where
  "HeaderMatcher_Match Key Value req \<longleftrightarrow> Header_Get (req_Header req) Key = Value"

text \<open>The parameter \<open>ms\<close> stands for \<open>Regexp.MatchString\<close>: pattern text, then subject.\<close>

definition HeaderRegexMatcher_Match ::
  "(string \<Rightarrow> string \<Rightarrow> bool) \<Rightarrow> string \<Rightarrow> string \<Rightarrow> request \<Rightarrow> bool" where
  "HeaderRegexMatcher_Match ms Key Pattern req =
     (let headerValue = Header_Get (req_Header req) Key
      in if headerValue = [] then False else ms Pattern headerValue)"

definition QueryMatcher_Match :: "string \<Rightarrow> string \<Rightarrow> request \<Rightarrow> bool" where
  "QueryMatcher_Match Key Value req \<longleftrightarrow> Values_Get (url_Query (req_URL req)) Key = Value"

fun Match :: "(string \<Rightarrow> string \<Rightarrow> bool) \<Rightarrow> Rule \<Rightarrow> request \<Rightarrow> bool" where
  "Match ms (HostMatcher p) req = HostMatcher_Match p req"
| "Match ms (PathMatcher p) req = PathMatcher_Match p req"
| "Match ms (PathPrefixMatcher p) req = PathPrefixMatcher_Match p req"
| "Match ms (MethodMatcher methods) req = MethodMatcher_Match methods req"
| "Match ms (HeaderMatcher k v) req = HeaderMatcher_Match k v req"
| "Match ms (HeaderRegexMatcher k p) req = HeaderRegexMatcher_Match ms k p req"
| "Match ms (QueryMatcher k v) req = QueryMatcher_Match k v req"
| "Match ms (AndRule left right) req = (Match ms left req \<and> Match ms right req)"
| "Match ms (OrRule left right) req = (Match ms left req \<or> Match ms right req)"
| "Match ms (NotRule inner) req = (\<not> Match ms inner req)"


section \<open>Configuration types (config/types.go)\<close>

text \<open>
  \<open>Filter *Filter\<close> and \<open>Matcher *Matcher\<close> are optional one-field structs: \<open>None\<close> is the nil
  pointer, \<open>Some s\<close> carries the field (\<open>Filter.Host\<close>, \<open>Matcher.Rule\<close>).
\<close>

record Node =
  node_Name :: string
  node_Addr :: string
  node_Filter :: "string option"
  node_Matcher :: "string option"
  node_Proxy :: string

record Service =
  svc_Name :: string
  svc_Addr :: string
  svc_HandlerType :: string
  svc_ListenerType :: string
  svc_Nodes :: "Node list"

text \<open>A \<open>time.Duration\<close> is a number of nanoseconds.\<close>

record ServerConfig =
  server_Addr :: string
  server_ReadTimeout :: int
  server_WriteTimeout :: int
  server_IdleTimeout :: int

record LoggingConfig =
  log_Level :: string
  log_Format :: string
  log_Output :: string

record Config =
  cfg_Server :: ServerConfig
  cfg_Logging :: LoggingConfig
  cfg_DefaultProxy :: string
  cfg_Services :: "Service list"

section \<open>The router (package router)\<close>

text \<open>
  A \<open>Route\<close> holds a pointer \<open>*config.Node\<close>, and \<open>UpdateRoutes\<close> takes the address of
  its loop variable, so the model has a store of \<open>Node\<close> cells: a list, whose indices are
  the addresses. Allocation appends a cell.

  The module declares \<open>go 1.21\<close> (go.mod). In that language version the variable of a
  \<open>for ... := range\<close> statement is one variable for the whole statement: every iteration
  assigns the next element to it. \<open>buildRoute(&node)\<close> therefore receives the same address in
  every iteration of the inner loop, and a fresh one for each service (each execution of
  the inner \<open>for\<close> statement).
\<close>

type_synonym heap = "Node list"

record Route =
  route_Name :: string
  route_Rule :: Rule
  route_Node :: nat

record Router =
  routes :: "Route list"

datatype route_error =
    FailedToParseRule parse_error
  | NodeMustHaveFilterOrMatcher

datatype update_error = FailedToBuildRoute string route_error

definition NewRouter :: Router where
  "NewRouter = \<lparr>routes = []\<rparr>"

definition buildRoute :: "(string \<Rightarrow> bool) \<Rightarrow> heap \<Rightarrow> nat \<Rightarrow> route_error + Route" where
  "buildRoute rx h node =
     (case node_Filter (h ! node) of
        Some host \<Rightarrow>
          Inr \<lparr>route_Name = node_Name (h ! node), route_Rule = HostMatcher host, route_Node = node\<rparr>
      | None \<Rightarrow>
          (case node_Matcher (h ! node) of
             Some rule \<Rightarrow>
               (case ParseRule rx rule of
                  Inl err \<Rightarrow> Inl (FailedToParseRule err)
                | Inr r \<Rightarrow>
                    Inr \<lparr>route_Name = node_Name (h ! node), route_Rule = r, route_Node = node\<rparr>)
           | None \<Rightarrow> Inl NodeMustHaveFilterOrMatcher))"

text \<open>The inner loop of \<open>UpdateRoutes\<close>; \<open>node\<close> is the address of the loop variable.\<close>

fun UpdateRoutes_nodes ::
  "(string \<Rightarrow> bool) \<Rightarrow> nat \<Rightarrow> Node list \<Rightarrow> heap \<Rightarrow> Route list \<Rightarrow> (update_error + Route list) \<times> heap"
where
  "UpdateRoutes_nodes rx node [] h rs = (Inr rs, h)"
| "UpdateRoutes_nodes rx node (n # ns) h rs =
     (let h' = h[node := n]
      in case buildRoute rx h' node of
           Inl err \<Rightarrow> (Inl (FailedToBuildRoute (node_Name (h' ! node)) err), h')
         | Inr route \<Rightarrow> UpdateRoutes_nodes rx node ns h' (rs @ [route]))"

text \<open>The outer loop; each service's inner loop gets a new variable.\<close>

fun UpdateRoutes_services ::
  "(string \<Rightarrow> bool) \<Rightarrow> Service list \<Rightarrow> heap \<Rightarrow> Route list \<Rightarrow> (update_error + Route list) \<times> heap"
where
  "UpdateRoutes_services rx [] h rs = (Inr rs, h)"
| "UpdateRoutes_services rx (svc # svcs) h rs =
     (let node = length h;
          h' = h @ [\<lparr>node_Name = [], node_Addr = [], node_Filter = None, node_Matcher = None,
                     node_Proxy = []\<rparr>]
      in case UpdateRoutes_nodes rx node (svc_Nodes svc) h' rs of
           (Inl err, h'') \<Rightarrow> (Inl err, h'')
         | (Inr rs', h'') \<Rightarrow> UpdateRoutes_services rx svcs h'' rs')"

text \<open>\<open>UpdateRoutes\<close> returns the error (\<open>None\<close> is nil), the router and the store.\<close>

definition UpdateRoutes ::
  "(string \<Rightarrow> bool) \<Rightarrow> Router \<Rightarrow> heap \<Rightarrow> Service list \<Rightarrow> update_error option \<times> Router \<times> heap"
where
  "UpdateRoutes rx r h services =
     (case UpdateRoutes_services rx services h [] of
        (Inl err, h') \<Rightarrow> (Some err, r, h')
      | (Inr rs, h') \<Rightarrow> (None, r\<lparr>routes := rs\<rparr>, h'))"

text \<open>\<open>Router.Match\<close> returns the node pointer of the first route whose rule matches
  (\<open>None\<close> is the result \<open>nil, false\<close>).\<close>

fun Router_Match_loop :: "(string \<Rightarrow> string \<Rightarrow> bool) \<Rightarrow> Route list \<Rightarrow> request \<Rightarrow> nat option" where
  "Router_Match_loop ms [] req = None"
| "Router_Match_loop ms (route # rest) req =
     (if Match ms (route_Rule route) req then Some (route_Node route)
      else Router_Match_loop ms rest req)"

definition Router_Match :: "(string \<Rightarrow> string \<Rightarrow> bool) \<Rightarrow> Router \<Rightarrow> request \<Rightarrow> nat option" where
  "Router_Match ms r req = Router_Match_loop ms (routes r) req"

text \<open>What a caller reads through the pointer that \<open>Match\<close> returned
  (\<open>node.Name\<close>, \<open>node.Addr\<close>, \<open>node.Proxy\<close>).\<close>

definition matchedNode :: "(string \<Rightarrow> string \<Rightarrow> bool) \<Rightarrow> Router \<Rightarrow> heap \<Rightarrow> request \<Rightarrow> Node option" where
  "matchedNode ms r h req = map_option (\<lambda>node. h ! node) (Router_Match ms r req)"


section \<open>The environment\<close>

text \<open>
  What the program gets from the network and from library calls whose outcome depends on
  it is a parameter of the model, a record of answers:
  \<^item> \<open>env_url_Parse\<close>: \<open>url.Parse\<close>, giving the fields \<open>Scheme\<close> and \<open>Host\<close> of the URL; \<open>None\<close>
    is a parse error;
  \<^item> \<open>env_NewRequest_ok\<close>: whether \<open>http.NewRequest\<close> accepts the method and the URL;
  \<^item> \<open>env_client_Do\<close>: \<open>client.Do\<close> for the client of the given key; \<open>None\<close> is an error;
  \<^item> \<open>env_Dial\<close>: \<open>net.DialTimeout("tcp", addr, 30s)\<close>, the connection or \<open>None\<close>;
  \<^item> \<open>env_Write_ok\<close>, \<open>env_Read\<close>: one \<open>Write\<close> and one \<open>Read\<close> on a connection;
  \<^item> \<open>env_Hijack\<close>: the outcome of taking over the client connection;
  \<^item> \<open>env_ws_Upgrade\<close>: what \<open>upgrader.Upgrade\<close> of the WebSocket library makes of the
    request: it refuses the handshake and answers the client itself with an error status, or
    it fails after it has taken over the connection, or it gives the client's WebSocket
    connection;
  \<^item> \<open>env_ws_Dial_ok\<close>: whether the handshake with the backend, at the given URL with the
    given headers and through the given proxy, succeeds once the library has accepted the
    headers.
\<close>

record proxyRequest =
  preq_Method :: string
  preq_URL :: string
  preq_Header :: header
  preq_Host :: string
  preq_Body :: string

record upstream =
  up_StatusCode :: nat
  up_Header :: header
  up_Body :: string

datatype hijack = HijackNotSupported | HijackFailed | Hijacked nat

text \<open>The statuses with which \<open>Upgrader.Upgrade\<close> refuses a handshake, and its outcomes.\<close>

datatype refusal = BadRequest | Forbidden | MethodNotAllowed | InternalServerError

datatype upgrade = UpgradeRefused refusal | UpgradeFailed | Upgraded nat

record env =
  env_url_Parse :: "string \<Rightarrow> (string \<times> string) option"
  env_NewRequest_ok :: "string \<Rightarrow> string \<Rightarrow> bool"
  env_client_Do :: "string \<Rightarrow> proxyRequest \<Rightarrow> upstream option"
  env_Dial :: "string \<Rightarrow> nat option"
  env_Write_ok :: "nat \<Rightarrow> string \<Rightarrow> bool"
  env_Read :: "nat \<Rightarrow> string option"
  env_Hijack :: hijack
  env_ws_Upgrade :: "request \<Rightarrow> upgrade"
  env_ws_Dial_ok :: "string \<Rightarrow> header \<Rightarrow> string \<Rightarrow> bool"

section \<open>Loading and validating a configuration (config/config.go, config/validator.go)\<close>

text \<open>\<open>setDefaults\<close> fills in the server section, the logging section and then each service
  (with the server address and the default proxy of the configuration).\<close>

definition second :: int where
  "second = 1000000000"

definition setDefaults_node :: "string \<Rightarrow> Node \<Rightarrow> Node" where
  "setDefaults_node defaultProxy node =
     (if node_Proxy node = [] \<and> defaultProxy \<noteq> [] then node\<lparr>node_Proxy := defaultProxy\<rparr> else node)"

definition setDefaults_service :: "Config \<Rightarrow> Service \<Rightarrow> Service" where
  "setDefaults_service cfg svc =
     (let svc = (if svc_Addr svc = [] then svc\<lparr>svc_Addr := server_Addr (cfg_Server cfg)\<rparr> else svc);
          svc = (if svc_HandlerType svc = [] then svc\<lparr>svc_HandlerType := ''http''\<rparr> else svc);
          svc = (if svc_ListenerType svc = [] then svc\<lparr>svc_ListenerType := ''tcp''\<rparr> else svc)
      in svc\<lparr>svc_Nodes := map (setDefaults_node (cfg_DefaultProxy cfg)) (svc_Nodes svc)\<rparr>)"

definition setDefaults_server :: "ServerConfig \<Rightarrow> ServerConfig" where
  "setDefaults_server srv =
     (let srv = (if server_Addr srv = [] then srv\<lparr>server_Addr := '':22222''\<rparr> else srv);
          srv = (if server_ReadTimeout srv = 0 then srv\<lparr>server_ReadTimeout := 30 * second\<rparr> else srv);
          srv = (if server_WriteTimeout srv = 0 then srv\<lparr>server_WriteTimeout := 30 * second\<rparr> else srv)
      in if server_IdleTimeout srv = 0 then srv\<lparr>server_IdleTimeout := 120 * second\<rparr> else srv)"

definition setDefaults_logging :: "LoggingConfig \<Rightarrow> LoggingConfig" where
  "setDefaults_logging lg =
     (let lg = (if log_Level lg = [] then lg\<lparr>log_Level := ''info''\<rparr> else lg);
          lg = (if log_Format lg = [] then lg\<lparr>log_Format := ''json''\<rparr> else lg)
      in if log_Output lg = [] then lg\<lparr>log_Output := ''stdout''\<rparr> else lg)"

definition setDefaults :: "Config \<Rightarrow> Config" where
  "setDefaults cfg =
     (let cfg = cfg\<lparr>cfg_Server := setDefaults_server (cfg_Server cfg),
                    cfg_Logging := setDefaults_logging (cfg_Logging cfg)\<rparr>
      in cfg\<lparr>cfg_Services := map (setDefaults_service cfg) (cfg_Services cfg)\<rparr>)"

datatype proxy_error = InvalidURL | ProxySchemeMustBeHttp string | ProxyHostRequired

datatype node_error =
    NodeNameRequired
  | NodeAddrRequired
  | NodeNeedsFilterOrMatcher
  | NodeHasFilterAndMatcher
  | FilterHostRequired
  | MatcherRuleRequired
  | InvalidNodeProxy proxy_error

datatype service_error =
    ServiceNameRequired
  | InvalidHandlerType string
  | InvalidListenerType string
  | NoNodeDefined
  | InvalidNode nat string node_error

datatype config_error =
    FailedToReadOrParse string
  | ServerAddrRequired
  | ReadTimeoutNegative
  | WriteTimeoutNegative
  | IdleTimeoutNegative
  | InvalidLevel string
  | InvalidFormat string
  | InvalidDefaultProxy proxy_error
  | NoServiceDefined
  | InvalidService nat string service_error

definition validateProxyURL :: "env \<Rightarrow> string \<Rightarrow> proxy_error option" where
  "validateProxyURL e proxyURL =
     (case env_url_Parse e proxyURL of
        None \<Rightarrow> Some InvalidURL
      | Some (scheme, host) \<Rightarrow>
          if scheme \<noteq> ''http'' \<and> scheme \<noteq> ''https'' then Some (ProxySchemeMustBeHttp scheme)
          else if host = [] then Some ProxyHostRequired
          else None)"

definition validateNode :: "env \<Rightarrow> Node \<Rightarrow> node_error option" where
  "validateNode e node =
     (if node_Name node = [] then Some NodeNameRequired
      else if node_Addr node = [] then Some NodeAddrRequired
      else if node_Filter node = None \<and> node_Matcher node = None then Some NodeNeedsFilterOrMatcher
      else if node_Filter node \<noteq> None \<and> node_Matcher node \<noteq> None then Some NodeHasFilterAndMatcher
      else if node_Filter node = Some [] then Some FilterHostRequired
      else if node_Matcher node = Some [] then Some MatcherRuleRequired
      else if node_Proxy node \<noteq> [] then
        (case validateProxyURL e (node_Proxy node) of
           Some err \<Rightarrow> Some (InvalidNodeProxy err)
         | None \<Rightarrow> None)
      else None)"

text \<open>The loops over nodes and services stop at the first invalid element and report its
  index and name.\<close>

fun validateNodes :: "env \<Rightarrow> nat \<Rightarrow> Node list \<Rightarrow> service_error option" where
  "validateNodes e i [] = None"
| "validateNodes e i (node # nodes) =
     (case validateNode e node of
        Some err \<Rightarrow> Some (InvalidNode i (node_Name node) err)
      | None \<Rightarrow> validateNodes e (Suc i) nodes)"

definition validateService :: "env \<Rightarrow> Service \<Rightarrow> service_error option" where
  "validateService e svc =
     (if svc_Name svc = [] then Some ServiceNameRequired
      else if svc_HandlerType svc \<noteq> ''http'' \<and> svc_HandlerType svc \<noteq> ''tcp''
        then Some (InvalidHandlerType (svc_HandlerType svc))
      else if svc_ListenerType svc \<noteq> ''tcp'' then Some (InvalidListenerType (svc_ListenerType svc))
      else if svc_Nodes svc = [] then Some NoNodeDefined
      else validateNodes e 0 (svc_Nodes svc))"

fun validateServices :: "env \<Rightarrow> nat \<Rightarrow> Service list \<Rightarrow> config_error option" where
  "validateServices e i [] = None"
| "validateServices e i (svc # svcs) =
     (case validateService e svc of
        Some err \<Rightarrow> Some (InvalidService i (svc_Name svc) err)
      | None \<Rightarrow> validateServices e (Suc i) svcs)"

definition validateServerConfig :: "ServerConfig \<Rightarrow> config_error option" where
  "validateServerConfig cfg =
     (if server_Addr cfg = [] then Some ServerAddrRequired
      else if server_ReadTimeout cfg < 0 then Some ReadTimeoutNegative
      else if server_WriteTimeout cfg < 0 then Some WriteTimeoutNegative
      else if server_IdleTimeout cfg < 0 then Some IdleTimeoutNegative
      else None)"

definition validateLoggingConfig :: "LoggingConfig \<Rightarrow> config_error option" where
  "validateLoggingConfig cfg =
     (if log_Level cfg \<notin> set [''debug'', ''info'', ''warn'', ''error''] then Some (InvalidLevel (log_Level cfg))
      else if log_Format cfg \<notin> set [''json'', ''text''] then Some (InvalidFormat (log_Format cfg))
      else None)"

definition ValidateConfig :: "env \<Rightarrow> Config \<Rightarrow> config_error option" where
  "ValidateConfig e cfg =
     (case validateServerConfig (cfg_Server cfg) of
        Some err \<Rightarrow> Some err
      | None \<Rightarrow>
          (case validateLoggingConfig (cfg_Logging cfg) of
             Some err \<Rightarrow> Some err
           | None \<Rightarrow>
               (case (if cfg_DefaultProxy cfg \<noteq> [] then validateProxyURL e (cfg_DefaultProxy cfg)
                      else None) of
                  Some err \<Rightarrow> Some (InvalidDefaultProxy err)
                | None \<Rightarrow>
                    if cfg_Services cfg = [] then Some NoServiceDefined
                    else validateServices e 0 (cfg_Services cfg))))"

text \<open>
  \<open>LoadConfig\<close>: \<open>decoded\<close> is the outcome of reading the file and decoding its YAML (\<open>Inl\<close>
  when either fails); defaults are filled in and the result is validated.
\<close>

definition LoadConfig :: "env \<Rightarrow> string + Config \<Rightarrow> config_error + Config" where
  "LoadConfig e decoded =
     (case decoded of
        Inl msg \<Rightarrow> Inl (FailedToReadOrParse msg)
      | Inr cfg \<Rightarrow>
          (let cfg = setDefaults cfg
           in case ValidateConfig e cfg of
                Some err \<Rightarrow> Inl err
              | None \<Rightarrow> Inr cfg))"

section \<open>The HTTP forwarder (package forwarder)\<close>

text \<open>
  The \<open>clients\<close> map is keyed by proxy URL; a client is determined by its key (the transport
  settings are constants), so the map is represented by the list of its keys.
\<close>

record Forwarder =
  clients :: "string list"

datatype forward_error =
    FailedToGetClient
  | FailedToCreateProxyRequest
  | FailedToForwardRequest

definition NewForwarder :: Forwarder where
  "NewForwarder = \<lparr>clients = []\<rparr>"

definition createClient :: "env \<Rightarrow> string \<Rightarrow> bool" where
  "createClient e proxyURL \<longleftrightarrow>
     \<not> (proxyURL \<noteq> [] \<and> proxyURL \<noteq> ''direct'' \<and> env_url_Parse e proxyURL = None)"

definition getClient :: "env \<Rightarrow> Forwarder \<Rightarrow> string \<Rightarrow> string option \<times> Forwarder" where
  "getClient e f proxyURL =
     (let proxyURL = (if proxyURL = [] then ''direct'' else proxyURL)
      in if proxyURL \<in> set (clients f) then (Some proxyURL, f)
         else if \<not> createClient e proxyURL then (None, f)
         else (Some proxyURL, f\<lparr>clients := clients f @ [proxyURL]\<rparr>))"

definition buildTargetURL :: "request \<Rightarrow> Node \<Rightarrow> string" where
  "buildTargetURL r node =
     (let scheme = (if \<not> req_TLS r then ''http'' else ''https'')
      in scheme @ ''://'' @ node_Addr node @ url_RequestURI (req_URL r))"

fun copyHeaders :: "header \<Rightarrow> header \<Rightarrow> header" where
  "copyHeaders dst [] = dst"
| "copyHeaders dst ((k, vv) # src) = copyHeaders (foldl (\<lambda>d v. Header_Add d k v) dst vv) src"

text \<open>
  The block of \<open>Forward\<close> that sets \<open>proxyReq.Host\<close>. The index is a Go \<open>int\<close> and runs down
  to \<open>-1\<close> when the address has no colon.
\<close>

definition isDigit :: "char \<Rightarrow> bool" where
  "isDigit c \<longleftrightarrow> 48 \<le> (of_char c :: nat) \<and> (of_char c :: nat) \<le> 57"

function colonScan :: "string \<Rightarrow> int \<Rightarrow> int" where
  "colonScan Addr colonIdx =
     (if colonIdx \<ge> 0 \<and> Addr ! nat colonIdx \<noteq> CHR '':'' then colonScan Addr (colonIdx - 1)
      else colonIdx)"
  by pat_completeness auto
termination
  by (relation "measure (\<lambda>(Addr, colonIdx). nat (colonIdx + 1))") auto

declare colonScan.simps [simp del]

definition proxyReqHost :: "string \<Rightarrow> string" where
  "proxyReqHost Addr =
     (let idx = int (length Addr) - 1
      in if idx \<ge> 0 \<and> isDigit (Addr ! nat idx) then
           (let colonIdx = int (length Addr) - 1
            in if colonIdx \<ge> 0 then
                 (let colonIdx = colonScan Addr colonIdx
                  in if colonIdx > 0 then take (nat colonIdx) Addr else Addr)
               else Addr)
         else Addr)"

text \<open>The request that \<open>Forward\<close> hands to \<open>client.Do\<close>; \<open>http.NewRequest\<close> starts it with
  an empty header.\<close>

definition proxyReq :: "request \<Rightarrow> Node \<Rightarrow> proxyRequest" where
  "proxyReq r node =
     \<lparr>preq_Method = req_Method r,
      preq_URL = buildTargetURL r node,
      preq_Header = copyHeaders [] (req_Header r),
      preq_Host = proxyReqHost (node_Addr node),
      preq_Body = req_Body r\<rparr>"

text \<open>
  Responses. A body is the JSON object given to \<open>json.Encoder.Encode\<close> (a map from strings
  to strings, which the encoder writes with its keys sorted), the text given to
  \<open>http.Error\<close>, or the bytes copied from upstream.
\<close>

datatype body = JSONBody "(string \<times> string) list" | TextBody string | RawBody string

record response =
  resp_Status :: nat
  resp_Header :: header
  resp_Body :: body

text \<open>\<open>Forward\<close> returns the error or the response written to the client. (A failure while
  the response body is copied happens after the status line has gone out; it is not part of
  the model.)\<close>

definition Forward ::
  "env \<Rightarrow> Forwarder \<Rightarrow> request \<Rightarrow> Node \<Rightarrow> (forward_error + response) \<times> Forwarder" where
  "Forward e f r node =
     (case getClient e f (node_Proxy node) of
        (None, f') \<Rightarrow> (Inl FailedToGetClient, f')
      | (Some client, f') \<Rightarrow>
          if \<not> env_NewRequest_ok e (req_Method r) (buildTargetURL r node)
          then (Inl FailedToCreateProxyRequest, f')
          else (case env_client_Do e client (proxyReq r node) of
                  None \<Rightarrow> (Inl FailedToForwardRequest, f')
                | Some resp \<Rightarrow>
                    (Inr \<lparr>resp_Status = up_StatusCode resp,
                          resp_Header = copyHeaders [] (up_Header resp),
                          resp_Body = RawBody (up_Body resp)\<rparr>, f')))"

section \<open>The server (package server)\<close>

record Server =
  srv_config :: Config
  srv_router :: Router
  srv_forwarder :: Forwarder

datatype reload_error =
    FailedToUpdateRoutes update_error
  | FailedToReinitializeLogger
  | FailedToReloadServer reload_error

definition Reload ::
  "(string \<Rightarrow> bool) \<Rightarrow> Server \<Rightarrow> heap \<Rightarrow> Config \<Rightarrow> reload_error option \<times> Server \<times> heap" where
  "Reload rx s h cfg =
     (case UpdateRoutes rx (srv_router s) h (cfg_Services cfg) of
        (Some err, r', h') \<Rightarrow> (Some (FailedToUpdateRoutes err), s\<lparr>srv_router := r'\<rparr>, h')
      | (None, r', h') \<Rightarrow> (None, s\<lparr>srv_router := r', srv_config := cfg\<rparr>, h'))"

text \<open>What became of a request: a response was written, a tunnel or a WebSocket bridge was
  set up, the client's connection was closed after its upgrade to a WebSocket, or the
  connection was given up without a response.\<close>

datatype served =
    Responded response
  | Tunnelled nat nat
  | Bridged string string
  | ClosedAfterUpgrade nat
  | Dropped

datatype event = Dialed string | Wrote nat string | ReadFrom nat | Closed nat

datatype connect_error =
    InvalidProxyURL
  | FailedToConnectToProxy
  | FailedToSendConnect
  | FailedToReadProxyResponse
  | ProxyNon200 string
  | FailedToDial

definition CRLF :: string where
  "CRLF = [CHR 0x0D, CHR 0x0A]"

text \<open>\<open>http.Error\<close> writes a plain-text response: the message and a line feed.\<close>

definition http_Error :: "string \<Rightarrow> nat \<Rightarrow> response" where
  "http_Error msg code =
     \<lparr>resp_Status = code,
      resp_Header = Header_Set (Header_Set [] ''Content-Type'' ''text/plain; charset=utf-8'')
                      ''X-Content-Type-Options'' ''nosniff'',
      resp_Body = TextBody (msg @ [CHR 0x0A])\<rparr>"

definition isWebSocketUpgrade :: "request \<Rightarrow> bool" where
  "isWebSocketUpgrade r \<longleftrightarrow>
     Header_Get (req_Header r) ''Upgrade'' = ''websocket'' \<and>
     Header_Get (req_Header r) ''Connection'' = ''Upgrade''"

definition handleNoMatch :: "request \<Rightarrow> response" where
  "handleNoMatch r =
     \<lparr>resp_Status = 502,
      resp_Header = Header_Set [] ''Content-Type'' ''application/json'',
      resp_Body = JSONBody [(''error'', ''no matching route found''),
                            (''host'', req_Host r),
                            (''method'', req_Method r),
                            (''path'', url_Path (req_URL r))]\<rparr>"

definition handleError :: "request \<Rightarrow> nat \<Rightarrow> string \<Rightarrow> response" where
  "handleError r statusCode message =
     \<lparr>resp_Status = statusCode,
      resp_Header = Header_Set [] ''Content-Type'' ''application/json'',
      resp_Body = JSONBody [(''error'', message),
                            (''host'', req_Host r),
                            (''path'', url_Path (req_URL r))]\<rparr>"

definition handleHTTP ::
  "env \<Rightarrow> (string \<Rightarrow> string \<Rightarrow> bool) \<Rightarrow> Server \<Rightarrow> heap \<Rightarrow> request \<Rightarrow> served \<times> Server" where
  "handleHTTP e ms s h r =
     (case matchedNode ms (srv_router s) h r of
        None \<Rightarrow> (Responded (handleNoMatch r), s)
      | Some node \<Rightarrow>
          (case Forward e (srv_forwarder s) r node of
             (Inl err, f') \<Rightarrow>
               (Responded (handleError r 502 ''failed to forward request''), s\<lparr>srv_forwarder := f'\<rparr>)
           | (Inr resp, f') \<Rightarrow> (Responded resp, s\<lparr>srv_forwarder := f'\<rparr>)))"

definition connectThroughProxy :: "env \<Rightarrow> string \<Rightarrow> string \<Rightarrow> (connect_error + nat) \<times> event list" where
  "connectThroughProxy e proxyURL targetAddr =
     (case env_url_Parse e proxyURL of
        None \<Rightarrow> (Inl InvalidProxyURL, [])
      | Some (proxyScheme, proxyHost) \<Rightarrow>
          (case env_Dial e proxyHost of
             None \<Rightarrow> (Inl FailedToConnectToProxy, [Dialed proxyHost])
           | Some proxyConn \<Rightarrow>
               (let connectReq = ''CONNECT '' @ targetAddr @ '' HTTP/1.1'' @ CRLF @
                                 ''Host: '' @ targetAddr @ CRLF @ CRLF
                in if \<not> env_Write_ok e proxyConn connectReq
                   then (Inl FailedToSendConnect,
                         [Dialed proxyHost, Wrote proxyConn connectReq, Closed proxyConn])
                   else (case env_Read e proxyConn of
                           None \<Rightarrow>
                             (Inl FailedToReadProxyResponse,
                              [Dialed proxyHost, Wrote proxyConn connectReq, ReadFrom proxyConn,
                               Closed proxyConn])
                         | Some data \<Rightarrow>
                             (let response = take 1024 data
                              in if length response < 12 \<or> take 3 (drop 9 response) \<noteq> ''200''
                                 then (Inl (ProxyNon200 response),
                                       [Dialed proxyHost, Wrote proxyConn connectReq,
                                        ReadFrom proxyConn, Closed proxyConn])
                                 else (Inr proxyConn,
                                       [Dialed proxyHost, Wrote proxyConn connectReq,
                                        ReadFrom proxyConn]))))))"

text \<open>
  \<open>handleConnect\<close> up to the point where both copy goroutines are started. The deferred
  \<open>targetConn.Close()\<close> shows as a \<open>Closed\<close> event on the returns before that point.
\<close>

definition handleConnect ::
  "env \<Rightarrow> (string \<Rightarrow> string \<Rightarrow> bool) \<Rightarrow> Server \<Rightarrow> heap \<Rightarrow> request \<Rightarrow> served \<times> event list" where
  "handleConnect e ms s h r =
     (case matchedNode ms (srv_router s) h r of
        None \<Rightarrow> (Responded (http_Error ''No matching route found'' 502), [])
      | Some node \<Rightarrow>
          (case (if node_Proxy node \<noteq> []
                 then connectThroughProxy e (node_Proxy node) (node_Addr node)
                 else (case env_Dial e (node_Addr node) of
                         None \<Rightarrow> (Inl FailedToDial, [Dialed (node_Addr node)])
                       | Some c \<Rightarrow> (Inr c, [Dialed (node_Addr node)]))) of
             (Inl err, evs) \<Rightarrow> (Responded (http_Error ''Failed to connect to target'' 502), evs)
           | (Inr targetConn, evs) \<Rightarrow>
               (case env_Hijack e of
                  HijackNotSupported \<Rightarrow>
                    (Responded (http_Error ''Hijacking not supported'' 500), evs @ [Closed targetConn])
                | HijackFailed \<Rightarrow>
                    (Responded (http_Error ''Failed to hijack connection'' 500), evs @ [Closed targetConn])
                | Hijacked clientConn \<Rightarrow>
                    (let established = ''HTTP/1.1 200 Connection Established'' @ CRLF @ CRLF
                     in if \<not> env_Write_ok e clientConn established
                        then (Dropped, evs @ [Wrote clientConn established, Closed clientConn,
                                              Closed targetConn])
                        else (Tunnelled clientConn targetConn,
                              evs @ [Wrote clientConn established])))))"

text \<open>
  The two calls into the WebSocket library (gorilla/websocket, not part of this repository).

  When \<open>Upgrader.Upgrade\<close> refuses a handshake it answers the client itself: it sets
  \<open>Sec-Websocket-Version: 13\<close> and calls \<open>http.Error\<close> with the text of the status.

  \<open>Dialer.Dial\<close> sets the handshake headers of the outbound request itself and returns an
  error, before anything is sent, when the headers it is given contain one of them.
\<close>

definition refusal_status :: "refusal \<Rightarrow> nat" where
  "refusal_status rf =
     (case rf of BadRequest \<Rightarrow> 400 | Forbidden \<Rightarrow> 403 | MethodNotAllowed \<Rightarrow> 405
      | InternalServerError \<Rightarrow> 500)"

definition StatusText :: "refusal \<Rightarrow> string" where
  "StatusText rf =
     (case rf of BadRequest \<Rightarrow> ''Bad Request'' | Forbidden \<Rightarrow> ''Forbidden''
      | MethodNotAllowed \<Rightarrow> ''Method Not Allowed''
      | InternalServerError \<Rightarrow> ''Internal Server Error'')"

definition returnError :: "refusal \<Rightarrow> response" where
  "returnError rf =
     \<lparr>resp_Status = refusal_status rf,
      resp_Header = Header_Set (Header_Set (Header_Set [] ''Sec-Websocket-Version'' ''13'')
                                  ''Content-Type'' ''text/plain; charset=utf-8'')
                      ''X-Content-Type-Options'' ''nosniff'',
      resp_Body = TextBody (StatusText rf @ [CHR 0x0A])\<rparr>"

definition duplicateHeader :: "header \<Rightarrow> bool" where
  "duplicateHeader requestHeader \<longleftrightarrow>
     list_ex (\<lambda>k. k = ''Upgrade'' \<or> k = ''Connection'' \<or> k = ''Sec-Websocket-Key'' \<or>
                  k = ''Sec-Websocket-Version'' \<or> k = ''Sec-Websocket-Extensions'')
       (map fst requestHeader)"

definition Dialer_Dial :: "env \<Rightarrow> string \<Rightarrow> header \<Rightarrow> string \<Rightarrow> bool" where
  "Dialer_Dial e urlStr requestHeader proxy \<longleftrightarrow>
     \<not> duplicateHeader requestHeader \<and> env_ws_Dial_ok e urlStr requestHeader proxy"

text \<open>
  \<open>handleWebSocket\<close> up to the point where both copy goroutines are started. After a failed
  \<open>Upgrade\<close> the handler only logs; after the upgrade, every return closes the client's
  connection (the deferred \<open>clientConn.Close()\<close>).
\<close>

definition handleWebSocket ::
  "env \<Rightarrow> (string \<Rightarrow> string \<Rightarrow> bool) \<Rightarrow> Server \<Rightarrow> heap \<Rightarrow> request \<Rightarrow> served" where
  "handleWebSocket e ms s h r =
     (case matchedNode ms (srv_router s) h r of
        None \<Rightarrow> Responded (http_Error ''No matching route found'' 502)
      | Some node \<Rightarrow>
          (case env_ws_Upgrade e r of
             UpgradeRefused rf \<Rightarrow> Responded (returnError rf)
           | UpgradeFailed \<Rightarrow> Dropped
           | Upgraded clientConn \<Rightarrow>
               (let scheme = (if \<not> req_TLS r then ''ws'' else ''wss'');
                    backendURL = scheme @ ''://'' @ node_Addr node @ url_RequestURI (req_URL r)
                in if node_Proxy node \<noteq> [] \<and> env_url_Parse e (node_Proxy node) = None
                   then ClosedAfterUpgrade clientConn
                   else if \<not> Dialer_Dial e backendURL (req_Header r) (node_Proxy node)
                   then ClosedAfterUpgrade clientConn
                   else Bridged backendURL (node_Proxy node))))"

definition ServeHTTP ::
  "env \<Rightarrow> (string \<Rightarrow> string \<Rightarrow> bool) \<Rightarrow> Server \<Rightarrow> heap \<Rightarrow> request \<Rightarrow> served \<times> Server \<times> event list" where
  "ServeHTTP e ms s h r =
     (if req_Method r = ''CONNECT'' then
        (case handleConnect e ms s h r of (res, evs) \<Rightarrow> (res, s, evs))
      else if isWebSocketUpgrade r then (handleWebSocket e ms s h r, s, [])
      else (case handleHTTP e ms s h r of (res, s') \<Rightarrow> (res, s', [])))"

section \<open>Reloading (cmd/forwarder/main.go, config/watcher.go)\<close>

text \<open>
  The callback that \<open>main\<close> gives to the watcher. It closes over \<open>cfg\<close> (the configuration
  in force) and the server. \<open>logger_ok\<close> is the outcome of \<open>logger.InitLogger\<close>, which runs
  only when the logging section changed.
\<close>

definition onChange ::
  "(string \<Rightarrow> bool) \<Rightarrow> bool \<Rightarrow> Config \<times> Server \<times> heap \<Rightarrow> Config \<Rightarrow>
     reload_error option \<times> Config \<times> Server \<times> heap" where
  "onChange rx logger_ok st newCfg =
     (case st of (cfg, srv, h) \<Rightarrow>
        if cfg_Logging cfg \<noteq> cfg_Logging newCfg \<and> \<not> logger_ok
        then (Some FailedToReinitializeLogger, cfg, srv, h)
        else (case Reload rx srv h newCfg of
                (Some err, srv', h') \<Rightarrow> (Some (FailedToReloadServer err), cfg, srv', h')
              | (None, srv', h') \<Rightarrow> (None, newCfg, srv', h')))"

text \<open>
  \<open>Watcher.reload\<close>: \<open>decoded\<close> is what reading and decoding the file gives. A failure of
  \<open>LoadConfig\<close> and a failure of the callback are logged and nothing else happens.
\<close>

record Watcher =
  stopped :: bool

definition reload ::
  "(string \<Rightarrow> bool) \<Rightarrow> env \<Rightarrow> bool \<Rightarrow> Watcher \<Rightarrow> string + Config \<Rightarrow> Config \<times> Server \<times> heap \<Rightarrow>
     Config \<times> Server \<times> heap" where
  "reload rx e logger_ok w decoded st =
     (if stopped w then st
      else case LoadConfig e decoded of
             Inl err \<Rightarrow> st
           | Inr cfg \<Rightarrow>
               (case onChange rx logger_ok st cfg of
                  (Some err, st') \<Rightarrow> st'
                | (None, st') \<Rightarrow> st'))"


section \<open>Scenarios\<close>

text \<open>
  The values of the specification's scenarios: two nodes with the same rule \<open>Host{a}\<close> and
  different backends in one service (S4), a node whose rule has an unbalanced brace, and a
  plain \<open>GET /\<close> request for a given host.
\<close>

definition nodeA :: Node where
  "nodeA = \<lparr>node_Name = ''A'', node_Addr = ''10.0.0.1:8080'', node_Filter = None,
             node_Matcher = Some ''Host{a}'', node_Proxy = []\<rparr>"

definition nodeB :: Node where
  "nodeB = \<lparr>node_Name = ''B'', node_Addr = ''10.0.0.2:8080'', node_Filter = None,
             node_Matcher = Some ''Host{a}'', node_Proxy = []\<rparr>"

definition nodeBroken :: Node where
  "nodeBroken = \<lparr>node_Name = ''C'', node_Addr = ''10.0.0.3:8080'', node_Filter = None,
                  node_Matcher = Some ''Host{a'', node_Proxy = []\<rparr>"

definition serviceOf :: "Node list \<Rightarrow> Service" where
  "serviceOf ns = \<lparr>svc_Name = ''web'', svc_Addr = [], svc_HandlerType = ''http'',
                    svc_ListenerType = ''tcp'', svc_Nodes = ns\<rparr>"

definition configOf :: "Service list \<Rightarrow> Config" where
  "configOf svcs =
     \<lparr>cfg_Server = \<lparr>server_Addr = '':22222'', server_ReadTimeout = 0, server_WriteTimeout = 0,
                     server_IdleTimeout = 0\<rparr>,
      cfg_Logging = \<lparr>log_Level = ''info'', log_Format = ''json'', log_Output = ''stdout''\<rparr>,
      cfg_DefaultProxy = [], cfg_Services = svcs\<rparr>"

definition getRequest :: "string \<Rightarrow> request" where
  "getRequest host =
     \<lparr>req_Method = ''GET'', req_Host = host,
      req_URL = \<lparr>url_Host = [], url_Path = ''/'', url_Query = [], url_RequestURI = ''/''\<rparr>,
      req_Header = [], req_TLS = False, req_Body = []\<rparr>"

text \<open>A \<open>GET /\<close> request with the header \<open>Upgrade: websocket\<close> and a given \<open>Connection\<close>.\<close>

definition upgradeRequest :: "string \<Rightarrow> string \<Rightarrow> request" where
  "upgradeRequest host connection =
     (getRequest host)\<lparr>req_Header := [(''Upgrade'', [''websocket'']), (''Connection'', [connection])]\<rparr>"

text \<open>
  The router and the server after loading the configuration with the single node A (the
  loop variable of that build is cell 0 of the store \<open>[nodeA]\<close>), and an environment with an
  upstream proxy at \<open>127.0.0.1:9091\<close> (S5) whose first answer is \<open>response\<close>. No request of
  the scenarios carries the headers \<open>Sec-WebSocket-Version\<close> and \<open>Sec-WebSocket-Key\<close> of a
  WebSocket handshake, so the library refuses to upgrade them, with status 400.
\<close>

definition routerA :: Router where
  "routerA = \<lparr>routes = [\<lparr>route_Name = ''A'', route_Rule = HostMatcher ''a'', route_Node = 0\<rparr>]\<rparr>"

definition serverA :: Server where
  "serverA = \<lparr>srv_config = configOf [serviceOf [nodeA]], srv_router = routerA,
               srv_forwarder = NewForwarder\<rparr>"

definition proxyEnv :: "string \<Rightarrow> env" where
  "proxyEnv response =
     \<lparr>env_url_Parse = (\<lambda>u. if u = ''http://127.0.0.1:9091'' then Some (''http'', ''127.0.0.1:9091'')
                        else None),
      env_NewRequest_ok = (\<lambda>_ _. True),
      env_client_Do = (\<lambda>_ _. None),
      env_Dial = (\<lambda>a. if a = ''127.0.0.1:9091'' then Some 7 else None),
      env_Write_ok = (\<lambda>_ _. True),
      env_Read = (\<lambda>_. Some response),
      env_Hijack = Hijacked 3,
      env_ws_Upgrade = (\<lambda>_. UpgradeRefused BadRequest),
      env_ws_Dial_ok = (\<lambda>_ _ _. True)\<rparr>"

text \<open>
  Scenario S5: a node behind the proxy, the server after loading it, and the request
  \<open>CONNECT api.example.com:443\<close>. A node that listens on the local host, \<open>:8080\<close>.
\<close>

definition nodeProxied :: Node where
  "nodeProxied = \<lparr>node_Name = ''P'', node_Addr = ''api.example.com:443'',
                   node_Filter = Some ''api.example.com'', node_Matcher = None,
                   node_Proxy = ''http://127.0.0.1:9091''\<rparr>"

definition serverP :: Server where
  "serverP = \<lparr>srv_config = configOf [serviceOf [nodeProxied]],
               srv_router = \<lparr>routes = [\<lparr>route_Name = ''P'', route_Rule = HostMatcher ''api.example.com'',
                                        route_Node = 0\<rparr>]\<rparr>,
               srv_forwarder = NewForwarder\<rparr>"

definition connectRequest :: request where
  "connectRequest =
     \<lparr>req_Method = ''CONNECT'', req_Host = ''api.example.com:443'',
      req_URL = \<lparr>url_Host = ''api.example.com:443'', url_Path = [], url_Query = [],
                 url_RequestURI = ''api.example.com:443''\<rparr>,
      req_Header = [], req_TLS = False, req_Body = []\<rparr>"

definition nodeLocal :: Node where
  "nodeLocal = \<lparr>node_Name = ''L'', node_Addr = '':8080'', node_Filter = Some ''a'',
                 node_Matcher = None, node_Proxy = []\<rparr>"

section \<open>Specification-side notions\<close>

text \<open>
  A node from which no route can be built: it has no filter, and either no matcher or a
  matcher whose rule does not parse. (A node with a filter always yields a route: the filter's
  host is used as the pattern as it is, and the matcher is not looked at.)
\<close>

definition unusable :: "(string \<Rightarrow> bool) \<Rightarrow> Node \<Rightarrow> bool" where
  "unusable rx n \<longleftrightarrow>
     node_Filter n = None \<and>
     (case node_Matcher n of None \<Rightarrow> True | Some rule \<Rightarrow> isl (ParseRule rx rule))"

text \<open>
  A node whose rule is invalid in the words of the specification: it has neither filter nor
  matcher, or its matcher rule does not parse (whether or not it also has a filter).
\<close>

definition invalidRule :: "(string \<Rightarrow> bool) \<Rightarrow> Node \<Rightarrow> bool" where
  "invalidRule rx n \<longleftrightarrow>
     (node_Filter n = None \<and> node_Matcher n = None) \<or>
     (case node_Matcher n of None \<Rightarrow> False | Some rule \<Rightarrow> isl (ParseRule rx rule))"

text \<open>The first value stored under a header name that is already in canonical form.\<close>

definition firstValue :: "header \<Rightarrow> string \<Rightarrow> string" where
  "firstValue h k = (case map_of h k of None \<Rightarrow> [] | Some [] \<Rightarrow> [] | Some (v # _) \<Rightarrow> v)"

text \<open>All values stored under a header name that is already in canonical form
  (\<open>Header.Values\<close> without the canonicalisation).\<close>

definition headerValues :: "header \<Rightarrow> string \<Rightarrow> string list" where
  "headerValues h k = (case map_of h k of None \<Rightarrow> [] | Some vs \<Rightarrow> vs)"

text \<open>
  A node address with its trailing \<open>:port\<close> stripped, in the words of the specification:
  when the address ends with a colon followed by one or more decimal digits, the text before
  that colon; any other address as it is.
\<close>

definition withoutPort :: "string \<Rightarrow> string" where
  "withoutPort addr =
     (let port = rev (takeWhile isDigit (rev addr));
          rest = take (length addr - length port) addr
      in if port \<noteq> [] \<and> rest \<noteq> [] \<and> last rest = CHR '':'' then butlast rest else addr)"

text \<open>
  The effective host of a request in the words of the specification: the Host header, else
  the authority of the URL, with its \<open>:port\<close> suffix removed when it has one.
\<close>

definition effectiveHost :: "request \<Rightarrow> string" where
  "effectiveHost req =
     withoutPort (if req_Host req = [] then url_Host (req_URL req) else req_Host req)"

section \<open>Properties of the router\<close>

lemma buildRoute_isl:
  "isl (buildRoute rx h p) \<longleftrightarrow> unusable rx (h ! p)"
  by (auto simp: buildRoute_def unusable_def split: option.splits sum.splits)

lemma UpdateRoutes_nodes_frame:
  "UpdateRoutes_nodes rx p ns h rs = (res, h') \<Longrightarrow>
     length h' = length h \<and> (\<forall>q. q \<noteq> p \<longrightarrow> h' ! q = h ! q)"
proof (induction ns arbitrary: h rs)
  case Nil
  then show ?case by simp
next
  case (Cons n ns)
  show ?case
  proof (cases "buildRoute rx (h[p := n]) p")
    case (Inl e)
    with Cons.prems show ?thesis by (auto simp: Let_def)
  next
    case (Inr route)
    with Cons.prems have "UpdateRoutes_nodes rx p ns (h[p := n]) (rs @ [route]) = (res, h')"
      by (simp add: Let_def)
    from Cons.IH[OF this] show ?thesis by auto
  qed
qed

lemma UpdateRoutes_nodes_fail:
  "p < length h \<Longrightarrow> \<exists>n\<in>set ns. unusable rx n \<Longrightarrow>
     isl (fst (UpdateRoutes_nodes rx p ns h rs))"
proof (induction ns arbitrary: h rs)
  case Nil
  then show ?case by simp
next
  case (Cons n ns)
  show ?case
  proof (cases "buildRoute rx (h[p := n]) p")
    case (Inl e)
    then show ?thesis by (simp add: Let_def)
  next
    case (Inr route)
    then have "\<not> isl (buildRoute rx (h[p := n]) p)" by simp
    with Cons.prems(1) have "\<not> unusable rx n" by (simp add: buildRoute_isl)
    with Cons.prems(2) have "\<exists>n\<in>set ns. unusable rx n" by auto
    with Cons.IH[of "h[p := n]" "rs @ [route]"] Cons.prems(1) Inr show ?thesis
      by (simp add: Let_def)
  qed
qed

lemma UpdateRoutes_services_frame:
  "UpdateRoutes_services rx svcs h rs = (res, h') \<Longrightarrow>
     length h \<le> length h' \<and> (\<forall>q<length h. h' ! q = h ! q)"
proof (induction svcs arbitrary: h rs)
  case Nil
  then show ?case by simp
next
  case (Cons svc svcs)
  let ?h1 = "h @ [\<lparr>node_Name = [], node_Addr = [], node_Filter = None, node_Matcher = None,
                     node_Proxy = []\<rparr>]"
  obtain res1 h2 where n: "UpdateRoutes_nodes rx (length h) (svc_Nodes svc) ?h1 rs = (res1, h2)"
    by (cases "UpdateRoutes_nodes rx (length h) (svc_Nodes svc) ?h1 rs") auto
  from UpdateRoutes_nodes_frame[OF n]
  have f: "length h2 = Suc (length h)" "\<forall>q<length h. h2 ! q = h ! q"
    by (auto simp: nth_append)
  show ?case
  proof (cases res1)
    case (Inl e)
    with Cons.prems n have "h' = h2" by (simp add: Let_def)
    with f show ?thesis by simp
  next
    case (Inr rs')
    with Cons.prems n have "UpdateRoutes_services rx svcs h2 rs' = (res, h')"
      by (simp add: Let_def)
    from Cons.IH[OF this] f show ?thesis by auto
  qed
qed

lemma UpdateRoutes_services_fail:
  "\<exists>svc\<in>set svcs. \<exists>n\<in>set (svc_Nodes svc). unusable rx n \<Longrightarrow>
     isl (fst (UpdateRoutes_services rx svcs h rs))"
proof (induction svcs arbitrary: h rs)
  case Nil
  then show ?case by simp
next
  case (Cons svc svcs)
  let ?h1 = "h @ [\<lparr>node_Name = [], node_Addr = [], node_Filter = None, node_Matcher = None,
                     node_Proxy = []\<rparr>]"
  obtain res1 h2 where n: "UpdateRoutes_nodes rx (length h) (svc_Nodes svc) ?h1 rs = (res1, h2)"
    by (cases "UpdateRoutes_nodes rx (length h) (svc_Nodes svc) ?h1 rs") auto
  show ?case
  proof (cases res1)
    case (Inl e)
    with n show ?thesis by (simp add: Let_def)
  next
    case (Inr rs')
    have "\<not> (\<exists>n\<in>set (svc_Nodes svc). unusable rx n)"
    proof
      assume "\<exists>n\<in>set (svc_Nodes svc). unusable rx n"
      from UpdateRoutes_nodes_fail[OF _ this, of "length h" ?h1 rs] n Inr show False by simp
    qed
    with Cons.prems have "\<exists>svc\<in>set svcs. \<exists>n\<in>set (svc_Nodes svc). unusable rx n" by auto
    from Cons.IH[OF this, of h2 rs'] n Inr show ?thesis by (simp add: Let_def)
  qed
qed

lemma Router_Match_loop_bound:
  "Router_Match_loop ms rs req = Some p \<Longrightarrow> \<exists>rt\<in>set rs. route_Node rt = p"
  by (induction rs) (auto split: if_splits)


text \<open>\<open>Router.Match\<close> does return the pointer of the first route whose rule matches.\<close>

lemma Router_Match_loop_first:
  "Router_Match_loop ms rs req =
     map_option route_Node (find (\<lambda>route. Match ms (route_Rule route) req) rs)"
  by (induction rs) auto

lemma Router_Match_first:
  "Router_Match ms r req =
     map_option route_Node (find (\<lambda>route. Match ms (route_Rule route) req) (routes r))"
  by (simp add: Router_Match_def Router_Match_loop_first)

text \<open>
  C1. First-match lookup. The claim asks that \<open>Match\<close> returns the node of the first route
  whose rule matches; for two nodes A then B with the rule \<open>Host{a}\<close>, a request for host
  \<open>a\<close> is to reach A's backend. The code does not do this: both routes are built and keep
  their names A and B, route A is the one that matches, but its node pointer is the address
  of the loop variable of \<open>UpdateRoutes\<close>, which holds the last node of the service once the
  loop is over. The request is sent to B's address. (When A and B are the only nodes of two
  services, each route has its own cell and the request reaches A.)
\<close>

theorem first_match_returns_last_node_of_service:
  "(case UpdateRoutes (\<lambda>_. True) NewRouter [] [serviceOf [nodeA, nodeB]] of
      (err, r, h) \<Rightarrow>
        err = None \<and> map route_Name (routes r) = [''A'', ''B''] \<and>
        map route_Rule (routes r) = [HostMatcher ''a'', HostMatcher ''a''] \<and>
        map route_Node (routes r) = [0, 0] \<and>
        Router_Match (\<lambda>_ _. False) r (getRequest ''a'') = Some 0 \<and>
        matchedNode (\<lambda>_ _. False) r h (getRequest ''a'') = Some nodeB \<and>
        map_option node_Addr (matchedNode (\<lambda>_ _. False) r h (getRequest ''a'')) = Some ''10.0.0.2:8080'') \<and>
   (case UpdateRoutes (\<lambda>_. True) NewRouter [] [serviceOf [nodeA], serviceOf [nodeB]] of
      (err, r, h) \<Rightarrow>
        err = None \<and> map route_Node (routes r) = [0, 1] \<and>
        matchedNode (\<lambda>_ _. False) r h (getRequest ''a'') = Some nodeA)"
  by code_simp

text \<open>
  The node pointers of a router built by \<open>UpdateRoutes\<close> are addresses of the store it
  returns: a later rebuild allocates above them.
\<close>

lemma buildRoute_Node: "buildRoute rx h p = Inr route \<Longrightarrow> route_Node route = p"
  by (auto simp: buildRoute_def split: option.splits sum.splits)

lemma UpdateRoutes_nodes_alloc:
  "UpdateRoutes_nodes rx p ns h rs = (Inr rs', h') \<Longrightarrow> p < n \<Longrightarrow>
     \<forall>rt\<in>set rs. route_Node rt < n \<Longrightarrow> \<forall>rt\<in>set rs'. route_Node rt < n"
proof (induction ns arbitrary: h rs)
  case Nil
  then show ?case by simp
next
  case (Cons x ns)
  show ?case
  proof (cases "buildRoute rx (h[p := x]) p")
    case (Inl e)
    with Cons.prems(1) show ?thesis by (simp add: Let_def)
  next
    case (Inr route)
    with Cons.prems(1) have "UpdateRoutes_nodes rx p ns (h[p := x]) (rs @ [route]) = (Inr rs', h')"
      by (simp add: Let_def)
    moreover from buildRoute_Node[OF Inr] Cons.prems(2,3)
    have "\<forall>rt\<in>set (rs @ [route]). route_Node rt < n" by auto
    ultimately show ?thesis using Cons.IH Cons.prems(2) by blast
  qed
qed

lemma UpdateRoutes_services_alloc:
  "UpdateRoutes_services rx svcs h rs = (Inr rs', h') \<Longrightarrow>
     \<forall>rt\<in>set rs. route_Node rt < length h \<Longrightarrow> \<forall>rt\<in>set rs'. route_Node rt < length h'"
proof (induction svcs arbitrary: h rs)
  case Nil
  then show ?case by simp
next
  case (Cons svc svcs)
  let ?h1 = "h @ [\<lparr>node_Name = [], node_Addr = [], node_Filter = None, node_Matcher = None,
                     node_Proxy = []\<rparr>]"
  obtain res1 h2 where n: "UpdateRoutes_nodes rx (length h) (svc_Nodes svc) ?h1 rs = (res1, h2)"
    by (cases "UpdateRoutes_nodes rx (length h) (svc_Nodes svc) ?h1 rs") auto
  from UpdateRoutes_nodes_frame[OF n] have len: "length h2 = Suc (length h)" by simp
  show ?case
  proof (cases res1)
    case (Inl e)
    with Cons.prems(1) n show ?thesis by (simp add: Let_def)
  next
    case (Inr rs1)
    with Cons.prems(1) n have s: "UpdateRoutes_services rx svcs h2 rs1 = (Inr rs', h')"
      by (simp add: Let_def)
    from Cons.prems(2) have "\<forall>rt\<in>set rs. route_Node rt < length h2" using len by auto
    with UpdateRoutes_nodes_alloc[OF n[unfolded Inr], of "length h2"] len
    have "\<forall>rt\<in>set rs1. route_Node rt < length h2" by simp
    with Cons.IH[OF s] show ?thesis by simp
  qed
qed

lemma UpdateRoutes_alloc:
  "UpdateRoutes rx r h services = (None, r', h') \<Longrightarrow>
     \<forall>rt\<in>set (routes r'). route_Node rt < length h'"
proof -
  assume u: "UpdateRoutes rx r h services = (None, r', h')"
  obtain res h2 where s: "UpdateRoutes_services rx services h [] = (res, h2)"
    by (cases "UpdateRoutes_services rx services h []") auto
  with u obtain rs where "res = Inr rs" "r' = r\<lparr>routes := rs\<rparr>" "h' = h2"
    by (cases res) (auto simp: UpdateRoutes_def)
  with UpdateRoutes_services_alloc[of rx services h "[]" rs h2] s show ?thesis by simp
qed

lemma UpdateRoutes_fail:
  assumes bad: "\<exists>svc\<in>set services. \<exists>n\<in>set (svc_Nodes svc). unusable rx n"
    and alloc: "\<forall>rt\<in>set (routes r). route_Node rt < length h"
  shows "\<exists>err h'. UpdateRoutes rx r h services = (Some err, r, h') \<and>
           (\<forall>req. matchedNode ms r h' req = matchedNode ms r h req)"
proof -
  obtain res h' where u: "UpdateRoutes_services rx services h [] = (res, h')"
    by (cases "UpdateRoutes_services rx services h []") auto
  from UpdateRoutes_services_fail[OF bad, of h "[]"] u obtain err where res: "res = Inl err"
    by (cases res) auto
  from UpdateRoutes_services_frame[OF u] have fr: "\<forall>q<length h. h' ! q = h ! q" by simp
  have "matchedNode ms r h' req = matchedNode ms r h req" for req
  proof (cases "Router_Match ms r req")
    case None
    then show ?thesis by (simp add: matchedNode_def)
  next
    case (Some p)
    with Router_Match_loop_bound[of ms "routes r" req p] alloc have "p < length h"
      by (auto simp: Router_Match_def)
    with fr Some show ?thesis by (simp add: matchedNode_def)
  qed
  with u res show ?thesis by (simp add: UpdateRoutes_def)
qed

subsection \<open>What a validated configuration says about its nodes\<close>

lemma validateNodes_all:
  "validateNodes e i nodes = None \<Longrightarrow> n \<in> set nodes \<Longrightarrow> validateNode e n = None"
  by (induction nodes arbitrary: i) (auto split: option.splits)

lemma validateServices_all:
  "validateServices e i svcs = None \<Longrightarrow> svc \<in> set svcs \<Longrightarrow> validateService e svc = None"
  by (induction svcs arbitrary: i) (auto split: option.splits)

lemma ValidateConfig_nodes:
  assumes "ValidateConfig e c = None" and "svc \<in> set (cfg_Services c)" and "n \<in> set (svc_Nodes svc)"
  shows "validateNode e n = None"
proof -
  from assms(1) have "validateServices e 0 (cfg_Services c) = None"
    by (auto simp: ValidateConfig_def split: option.splits if_splits)
  from validateServices_all[OF this assms(2)] have "validateNodes e 0 (svc_Nodes svc) = None"
    by (auto simp: validateService_def split: if_splits)
  from validateNodes_all[OF this assms(3)] show ?thesis .
qed

lemma validateNode_one_of:
  "validateNode e n = None \<Longrightarrow>
     (node_Filter n = None \<and> node_Matcher n \<noteq> None) \<or> (node_Filter n \<noteq> None \<and> node_Matcher n = None)"
  by (auto simp: validateNode_def split: if_splits)

lemma valid_invalidRule_unusable:
  "validateNode e n = None \<Longrightarrow> invalidRule rx n \<Longrightarrow> unusable rx n"
  using validateNode_one_of[of e n]
  by (auto simp: invalidRule_def unusable_def split: option.splits)

lemma setDefaults_node_rule:
  "node_Filter (setDefaults_node dp n) = node_Filter n \<and>
   node_Matcher (setDefaults_node dp n) = node_Matcher n"
  by (simp add: setDefaults_node_def)

lemma setDefaults_service_nodes:
  "svc_Nodes (setDefaults_service c svc) = map (setDefaults_node (cfg_DefaultProxy c)) (svc_Nodes svc)"
  by (simp add: setDefaults_service_def Let_def)

lemma setDefaults_keeps_invalidRule:
  assumes "svc \<in> set (cfg_Services c)" and "n \<in> set (svc_Nodes svc)" and "invalidRule rx n"
  shows "\<exists>svc'\<in>set (cfg_Services (setDefaults c)). \<exists>n'\<in>set (svc_Nodes svc'). invalidRule rx n'"
proof -
  define c' where "c' = c\<lparr>cfg_Server := setDefaults_server (cfg_Server c),
                            cfg_Logging := setDefaults_logging (cfg_Logging c)\<rparr>"
  have c': "cfg_Services (setDefaults c) = map (setDefaults_service c') (cfg_Services c)"
    by (simp add: setDefaults_def Let_def c'_def)
  let ?svc = "setDefaults_service c' svc"
  let ?n = "setDefaults_node (cfg_DefaultProxy c') n"
  from c' assms(1) have "?svc \<in> set (cfg_Services (setDefaults c))" by simp
  moreover from assms(2) have "?n \<in> set (svc_Nodes ?svc)"
    by (simp add: setDefaults_service_nodes)
  moreover from assms(3) have "invalidRule rx ?n"
    by (simp add: invalidRule_def setDefaults_node_rule)
  ultimately show ?thesis by blast
qed


lemma reload_unusable:
  assumes bad: "\<exists>svc\<in>set (cfg_Services c). \<exists>n\<in>set (svc_Nodes svc). unusable rx n"
    and alloc: "\<forall>rt\<in>set (routes (srv_router srv)). route_Node rt < length h"
  shows "\<exists>err h'. onChange rx logger_ok (cfg, srv, h) c = (Some err, cfg, srv, h') \<and>
           (\<forall>req. matchedNode ms (srv_router srv) h' req = matchedNode ms (srv_router srv) h req)"
proof -
  from UpdateRoutes_fail[OF bad alloc, of ms] obtain err h' where
    u: "UpdateRoutes rx (srv_router srv) h (cfg_Services c) = (Some err, srv_router srv, h')"
    and m: "\<forall>req. matchedNode ms (srv_router srv) h' req = matchedNode ms (srv_router srv) h req"
    by blast
  from u have r: "Reload rx srv h c = (Some (FailedToUpdateRoutes err), srv, h')"
    by (simp add: Reload_def)
  show ?thesis
  proof (cases "cfg_Logging cfg \<noteq> cfg_Logging c \<and> \<not> logger_ok")
    case True
    then have "onChange rx logger_ok (cfg, srv, h) c = (Some FailedToReinitializeLogger, cfg, srv, h)"
      by (simp add: onChange_def)
    then show ?thesis by blast
  next
    case False
    with r have "onChange rx logger_ok (cfg, srv, h) c
        = (Some (FailedToReloadServer (FailedToUpdateRoutes err)), cfg, srv, h')"
      by (simp add: onChange_def)
    with m show ?thesis by blast
  qed
qed

text \<open>
  C2. A rebuild from a configuration with a node from which no route can be built (its rule
  does not parse, or it has neither filter nor matcher) returns an error and leaves the
  router as it was: \<open>UpdateRoutes\<close> returns the error and the old routes, and the cells the
  old routes point to are untouched, so a lookup gives the same node as before, for every
  request; \<open>Server.Reload\<close> returns the error and the server as it was. Through
  \<open>Watcher.reload\<close>, which loads and validates the file first, a configuration with a node
  whose matcher rule does not parse (with or without a filter beside it) or with neither
  filter nor matcher keeps configuration and server, and every lookup gives the same node as
  before: either the validation rejects the configuration, or the rebuild fails. A file that
  cannot be read or decoded changes nothing at all.
\<close>

theorem invalid_reload_keeps_table:
  assumes alloc: "\<forall>rt\<in>set (routes (srv_router srv)). route_Node rt < length h"
  shows "((\<exists>svc\<in>set (cfg_Services newCfg). \<exists>n\<in>set (svc_Nodes svc). unusable rx n) \<longrightarrow>
            (\<exists>err h'. UpdateRoutes rx (srv_router srv) h (cfg_Services newCfg) = (Some err, srv_router srv, h')
               \<and> (\<forall>req. matchedNode ms (srv_router srv) h' req = matchedNode ms (srv_router srv) h req))
            \<and> (\<exists>err h'. Reload rx srv h newCfg = (Some err, srv, h')))
       \<and> ((\<exists>svc\<in>set (cfg_Services newCfg). \<exists>n\<in>set (svc_Nodes svc). invalidRule rx n) \<longrightarrow>
            (\<exists>h'. reload rx e logger_ok w (Inr newCfg) (cfg, srv, h) = (cfg, srv, h')
               \<and> (\<forall>req. matchedNode ms (srv_router srv) h' req = matchedNode ms (srv_router srv) h req)))
       \<and> reload rx e logger_ok w (Inl msg) (cfg, srv, h) = (cfg, srv, h)"
proof (intro conjI impI)
  assume bad: "\<exists>svc\<in>set (cfg_Services newCfg). \<exists>n\<in>set (svc_Nodes svc). unusable rx n"
  from UpdateRoutes_fail[OF bad alloc, of ms]
  show "\<exists>err h'. UpdateRoutes rx (srv_router srv) h (cfg_Services newCfg) = (Some err, srv_router srv, h')
               \<and> (\<forall>req. matchedNode ms (srv_router srv) h' req = matchedNode ms (srv_router srv) h req)" .
  then show "\<exists>err h'. Reload rx srv h newCfg = (Some err, srv, h')"
    by (auto simp: Reload_def)
next
  assume bad: "\<exists>svc\<in>set (cfg_Services newCfg). \<exists>n\<in>set (svc_Nodes svc). invalidRule rx n"
  let ?c = "setDefaults newCfg"
  let ?goal = "\<exists>h'. reload rx e logger_ok w (Inr newCfg) (cfg, srv, h) = (cfg, srv, h')
               \<and> (\<forall>req. matchedNode ms (srv_router srv) h' req = matchedNode ms (srv_router srv) h req)"
  show ?goal
  proof (cases "stopped w \<or> ValidateConfig e ?c \<noteq> None")
    case True
    then have "reload rx e logger_ok w (Inr newCfg) (cfg, srv, h) = (cfg, srv, h)"
      by (auto simp: reload_def LoadConfig_def Let_def split: option.splits)
    then show ?thesis by blast
  next
    case False
    then have v: "ValidateConfig e ?c = None" and ns: "\<not> stopped w" by simp_all
    from bad setDefaults_keeps_invalidRule[of _ newCfg _ rx]
    obtain svc n where sn: "svc \<in> set (cfg_Services ?c)" "n \<in> set (svc_Nodes svc)" "invalidRule rx n"
      by blast
    from valid_invalidRule_unusable[OF ValidateConfig_nodes[OF v sn(1,2)] sn(3)] sn(1,2)
    have "\<exists>svc\<in>set (cfg_Services ?c). \<exists>n\<in>set (svc_Nodes svc). unusable rx n" by blast
    from reload_unusable[OF this alloc, of logger_ok cfg ms] obtain err h' where
      o: "onChange rx logger_ok (cfg, srv, h) ?c = (Some err, cfg, srv, h')"
      and m: "\<forall>req. matchedNode ms (srv_router srv) h' req = matchedNode ms (srv_router srv) h req"
      by blast
    from o v ns have "reload rx e logger_ok w (Inr newCfg) (cfg, srv, h) = (cfg, srv, h')"
      by (simp add: reload_def LoadConfig_def Let_def)
    with m show ?thesis by blast
  qed
next
  show "reload rx e logger_ok w (Inl msg) (cfg, srv, h) = (cfg, srv, h)"
    by (simp add: reload_def LoadConfig_def)
qed

theorem invalid_reload_keeps_table_witness:
  "list_all (\<lambda>rt. route_Node rt < length [nodeA]) (routes (srv_router serverA)) \<and>
   (\<exists>svc\<in>set (cfg_Services (configOf [serviceOf [nodeB, nodeBroken]])).
      \<exists>n\<in>set (svc_Nodes svc). unusable (\<lambda>_. True) n) \<and>
   (\<exists>svc\<in>set (cfg_Services (configOf [serviceOf [nodeB, nodeBroken\<lparr>node_Filter := Some ''a''\<rparr>]])).
      \<exists>n\<in>set (svc_Nodes svc). invalidRule (\<lambda>_. True) n) \<and>
   (\<exists>err h'. UpdateRoutes (\<lambda>_. True) (srv_router serverA) [nodeA]
                (cfg_Services (configOf [serviceOf [nodeB, nodeBroken]]))
              = (Some err, srv_router serverA, h')) \<and>
   (\<exists>h'. reload (\<lambda>_. True) (proxyEnv []) True \<lparr>stopped = False\<rparr>
            (Inr (configOf [serviceOf [nodeB, nodeBroken\<lparr>node_Filter := Some ''a''\<rparr>]]))
            (configOf [serviceOf [nodeA]], serverA, [nodeA])
          = (configOf [serviceOf [nodeA]], serverA, h') \<and>
          (\<forall>req. matchedNode (\<lambda>_ _. False) (srv_router serverA) h' req
               = matchedNode (\<lambda>_ _. False) (srv_router serverA) [nodeA] req)) \<and>
   reload (\<lambda>_. True) (proxyEnv []) True \<lparr>stopped = False\<rparr>
     (Inr (configOf [serviceOf [nodeB, nodeBroken]])) (configOf [serviceOf [nodeA]], serverA, [nodeA])
   = (configOf [serviceOf [nodeA]], serverA, [nodeA, nodeBroken]) \<and>
   reload (\<lambda>_. True) (proxyEnv []) True \<lparr>stopped = False\<rparr>
     (Inr (configOf [serviceOf [nodeB, nodeBroken\<lparr>node_Filter := Some ''a''\<rparr>]]))
     (configOf [serviceOf [nodeA]], serverA, [nodeA])
   = (configOf [serviceOf [nodeA]], serverA, [nodeA])"
proof -
  have run: "reload (\<lambda>_. True) (proxyEnv []) True \<lparr>stopped = False\<rparr>
     (Inr (configOf [serviceOf [nodeB, nodeBroken]])) (configOf [serviceOf [nodeA]], serverA, [nodeA])
   = (configOf [serviceOf [nodeA]], serverA, [nodeA, nodeBroken])"
    by code_simp
  have run': "reload (\<lambda>_. True) (proxyEnv []) True \<lparr>stopped = False\<rparr>
     (Inr (configOf [serviceOf [nodeB, nodeBroken\<lparr>node_Filter := Some ''a''\<rparr>]]))
     (configOf [serviceOf [nodeA]], serverA, [nodeA])
   = (configOf [serviceOf [nodeA]], serverA, [nodeA])"
    by code_simp
  have alloc: "\<forall>rt\<in>set (routes (srv_router serverA)). route_Node rt < length [nodeA]"
    by (simp add: serverA_def routerA_def)
  have bad: "\<exists>svc\<in>set (cfg_Services (configOf [serviceOf [nodeB, nodeBroken]])).
      \<exists>n\<in>set (svc_Nodes svc). unusable (\<lambda>_. True) n"
    by code_simp
  have bad': "\<exists>svc\<in>set (cfg_Services (configOf [serviceOf [nodeB, nodeBroken\<lparr>node_Filter := Some ''a''\<rparr>]])).
      \<exists>n\<in>set (svc_Nodes svc). invalidRule (\<lambda>_. True) n"
    by code_simp
  note t = invalid_reload_keeps_table[OF alloc, where rx = "\<lambda>_. True" and ms = "\<lambda>_ _. False"
      and e = "proxyEnv []" and logger_ok = True and w = "\<lparr>stopped = False\<rparr>"
      and cfg = "configOf [serviceOf [nodeA]]"]
  from t[where newCfg = "configOf [serviceOf [nodeB, nodeBroken]]", THEN conjunct1, THEN mp, OF bad]
  have 1: "\<exists>err h'. UpdateRoutes (\<lambda>_. True) (srv_router serverA) [nodeA]
                (cfg_Services (configOf [serviceOf [nodeB, nodeBroken]]))
              = (Some err, srv_router serverA, h')"
    by blast
  from t[where newCfg = "configOf [serviceOf [nodeB, nodeBroken\<lparr>node_Filter := Some ''a''\<rparr>]]",
      THEN conjunct2, THEN conjunct1, THEN mp, OF bad']
  have 2: "\<exists>h'. reload (\<lambda>_. True) (proxyEnv []) True \<lparr>stopped = False\<rparr>
            (Inr (configOf [serviceOf [nodeB, nodeBroken\<lparr>node_Filter := Some ''a''\<rparr>]]))
            (configOf [serviceOf [nodeA]], serverA, [nodeA])
          = (configOf [serviceOf [nodeA]], serverA, h') \<and>
          (\<forall>req. matchedNode (\<lambda>_ _. False) (srv_router serverA) h' req
               = matchedNode (\<lambda>_ _. False) (srv_router serverA) [nodeA] req)" .
  from alloc bad bad' 1 2 run run' show ?thesis unfolding list_all_iff by blast
qed


section \<open>Properties of the matchers\<close>

lemma Index_takeWhile:
  "(case Index h c of None \<Rightarrow> h | Some idx \<Rightarrow> take idx h) = takeWhile (\<lambda>x. x \<noteq> c) h"
  by (induction h) (auto split: option.splits)

text \<open>
  \<open>HostMatcher.Match\<close> decides on the host cut at its first colon: a pattern that starts with
  \<open>*.\<close> matches exactly when that text is \<open>p[2:]\<close> or ends with a dot followed by \<open>p[2:]\<close>, any
  other pattern exactly when that text equals it byte for byte. (The code's first test,
  equality with the whole pattern, adds nothing in the wildcard case: a host equal to \<open>*.d\<close>
  ends with \<open>.d\<close>.)
\<close>

lemma HostMatcher_Match_first_colon:
  fixes req p
  defines "host \<equiv> takeWhile (\<lambda>c. c \<noteq> CHR '':'')
                     (if req_Host req = [] then url_Host (req_URL req) else req_Host req)"
  shows "HostMatcher_Match p req \<longleftrightarrow>
     (if HasPrefix p ''*.''
      then host = drop 2 p \<or> HasSuffix host (''.'' @ drop 2 p)
      else host = p)"
proof -
  have eh: "(case Index (if req_Host req = [] then url_Host (req_URL req) else req_Host req) CHR '':'' of
               None \<Rightarrow> (if req_Host req = [] then url_Host (req_URL req) else req_Host req)
             | Some idx \<Rightarrow> take idx (if req_Host req = [] then url_Host (req_URL req) else req_Host req))
            = host"
    unfolding host_def by (rule Index_takeWhile)
  have m: "HostMatcher_Match p req \<longleftrightarrow>
     (if p = host then True
      else if HasPrefix p ''*.'' then HasSuffix host (''.'' @ drop 2 p) \<or> host = drop 2 p
      else False)"
    unfolding HostMatcher_Match_def Let_def eh by simp
  have wild: "HasSuffix p (''.'' @ drop 2 p)" if "HasPrefix p ''*.''"
  proof -
    from that have "p = ''*.'' @ drop 2 p"
      by (metis HasPrefix_def append_take_drop_id length_Cons list.size(3) numeral_2_eq_2)
    then obtain d where "p = CHR ''*'' # CHR ''.'' # d" by simp
    then show ?thesis by (simp add: HasSuffix_def)
  qed
  show ?thesis using m wild by auto
qed

text \<open>
  When the host without its port has no colon of its own, the cut at the first colon is the
  host without its port, and the matcher decides as the specification says.
\<close>

lemma withoutPort_first_colon:
  assumes "CHR '':'' \<notin> set (withoutPort a)"
  shows "takeWhile (\<lambda>c. c \<noteq> CHR '':'') a = withoutPort a"
proof -
  define port where "port = rev (takeWhile isDigit (rev a))"
  define rest where "rest = take (length a - length port) a"
  show ?thesis
  proof (cases "port \<noteq> [] \<and> rest \<noteq> [] \<and> last rest = CHR '':''")
    case True
    then have w: "withoutPort a = butlast rest"
      by (simp add: withoutPort_def Let_def port_def rest_def)
    from True have r: "rest = butlast rest @ [CHR '':'']"
      by (metis append_butlast_last_id)
    have "a = rest @ drop (length a - length port) a"
      by (simp add: rest_def)
    with r have a: "a = butlast rest @ CHR '':'' # drop (length a - length port) a"
      by (metis append_Cons append_Nil append_assoc)
    from assms w have "\<forall>c\<in>set (butlast rest). c \<noteq> CHR '':''" by auto
    then have "takeWhile (\<lambda>c. c \<noteq> CHR '':'') (butlast rest @ CHR '':'' # drop (length a - length port) a)
                 = butlast rest"
      by (simp add: takeWhile_tail)
    with a w show ?thesis by simp
  next
    case False
    then have w: "withoutPort a = a"
      by (auto simp: withoutPort_def Let_def port_def rest_def)
    with assms have "\<forall>c\<in>set a. c \<noteq> CHR '':''" by auto
    then have "takeWhile (\<lambda>c. c \<noteq> CHR '':'') a = a" by (simp add: takeWhile_eq_all_conv)
    with w show ?thesis by simp
  qed
qed

lemma HostMatcher_Match_pattern_no_colon:
  assumes "CHR '':'' \<notin> set (effectiveHost req)"
  shows "HostMatcher_Match p req \<longleftrightarrow>
     (if HasPrefix p ''*.''
      then effectiveHost req = drop 2 p \<or> HasSuffix (effectiveHost req) (''.'' @ drop 2 p)
      else effectiveHost req = p)"
proof -
  from assms have "takeWhile (\<lambda>c. c \<noteq> CHR '':'')
                     (if req_Host req = [] then url_Host (req_URL req) else req_Host req)
                   = effectiveHost req"
    unfolding effectiveHost_def by (rule withoutPort_first_colon)
  with HostMatcher_Match_first_colon[of p req] show ?thesis by simp
qed

text \<open>
  C4. The claim has the matcher decide on the host with its \<open>:port\<close> suffix removed, for every
  request. \<open>HostMatcher.Match\<close> cuts the host at its first colon (under the comment
  \<open>Remove port if present\<close>), which is the port's colon only when the host has no colon of its
  own. For the IPv6 literal \<open>[::1]\<close> the host without its port is \<open>[::1]\<close>, the code compares
  \<open>[\<close>, and the pattern \<open>[::1]\<close>, which the parser accepts and which equals the effective host
  byte for byte, matches neither \<open>Host: [::1]:8080\<close> nor \<open>Host: [::1]\<close>. The hosts of scenario
  S2 and a host name with a port are decided as the claim says.
\<close>

theorem host_with_colons_is_cut_at_first_colon:
  "effectiveHost (getRequest ''[::1]:8080'') = ''[::1]'' \<and>
   \<not> HasPrefix ''[::1]'' ''*.'' \<and>
   \<not> HostMatcher_Match ''[::1]'' (getRequest ''[::1]:8080'') \<and>
   HostMatcher_Match ''['' (getRequest ''[::1]:8080'') \<and>
   effectiveHost (getRequest ''[::1]'') = ''[::1]'' \<and>
   \<not> HostMatcher_Match ''[::1]'' (getRequest ''[::1]'') \<and>
   ParseRule (\<lambda>_. True) ''Host{[::1]}'' = Inr (HostMatcher ''[::1]'') \<and>
   \<not> Match (\<lambda>_ _. False) (HostMatcher ''[::1]'') (getRequest ''[::1]:8080'') \<and>
   effectiveHost (getRequest ''example.com:8080'') = ''example.com'' \<and>
   HostMatcher_Match ''example.com'' (getRequest ''example.com:8080'') \<and>
   HostMatcher_Match ''*.example.com'' (getRequest ''a.example.com'') \<and>
   HostMatcher_Match ''*.example.com'' (getRequest ''example.com'') \<and>
   \<not> HostMatcher_Match ''*.example.com'' (getRequest ''aexample.com'')"
  by code_simp

section \<open>Properties of the server front end\<close>

lemma canon_Content_Type: "CanonicalMIMEHeaderKey ''Content-Type'' = ''Content-Type''"
  by code_simp

lemma canon_Upgrade: "CanonicalMIMEHeaderKey ''Upgrade'' = ''Upgrade''"
  by code_simp

lemma canon_Connection: "CanonicalMIMEHeaderKey ''Connection'' = ''Connection''"
  by code_simp

text \<open>
  C5. A request that is neither a CONNECT nor a WebSocket upgrade and that no route matches
  is answered by \<open>handleNoMatch\<close>: status 502, \<open>Content-Type: application/json\<close>, and a JSON
  object with exactly the fields \<open>error\<close> (\<open>no matching route found\<close>), \<open>host\<close>, \<open>path\<close> and
  \<open>method\<close>, the last three taken from the request. The server is left as it was.
\<close>

theorem unmatched_request_gets_502_json:
  assumes "req_Method r \<noteq> ''CONNECT''"
    and "\<not> isWebSocketUpgrade r"
    and "Router_Match ms (srv_router s) r = None"
  shows "\<exists>resp fields. ServeHTTP e ms s h r = (Responded resp, s, []) \<and>
           resp_Status resp = 502 \<and>
           Header_Get (resp_Header resp) ''Content-Type'' = ''application/json'' \<and>
           resp_Body resp = JSONBody fields \<and>
           set (map fst fields) = {''error'', ''host'', ''path'', ''method''} \<and>
           map_of fields ''error'' = Some ''no matching route found'' \<and>
           map_of fields ''host'' = Some (req_Host r) \<and>
           map_of fields ''path'' = Some (url_Path (req_URL r)) \<and>
           map_of fields ''method'' = Some (req_Method r)"
proof -
  from assms(3) have "matchedNode ms (srv_router s) h r = None"
    by (simp add: matchedNode_def)
  with assms(1,2) have "ServeHTTP e ms s h r = (Responded (handleNoMatch r), s, [])"
    by (simp add: ServeHTTP_def handleHTTP_def)
  moreover have "Header_Get (resp_Header (handleNoMatch r)) ''Content-Type'' = ''application/json''"
    by (simp add: handleNoMatch_def Header_Get_def Header_Set_def canon_Content_Type)
  ultimately show ?thesis
    by (auto simp: handleNoMatch_def)
qed

theorem unmatched_request_gets_502_json_witness:
  "req_Method (getRequest ''nowhere.example'') \<noteq> ''CONNECT'' \<and>
   \<not> isWebSocketUpgrade (getRequest ''nowhere.example'') \<and>
   Router_Match (\<lambda>_ _. False) (srv_router serverA) (getRequest ''nowhere.example'') = None \<and>
   (\<exists>resp fields.
      ServeHTTP (proxyEnv []) (\<lambda>_ _. False) serverA [nodeA] (getRequest ''nowhere.example'')
        = (Responded resp, serverA, []) \<and>
      resp_Status resp = 502 \<and>
      Header_Get (resp_Header resp) ''Content-Type'' = ''application/json'' \<and>
      resp_Body resp = JSONBody fields \<and>
      set (map fst fields) = {''error'', ''host'', ''path'', ''method''} \<and>
      map_of fields ''error'' = Some ''no matching route found'' \<and>
      map_of fields ''host'' = Some (req_Host (getRequest ''nowhere.example'')) \<and>
      map_of fields ''path'' = Some (url_Path (req_URL (getRequest ''nowhere.example''))) \<and>
      map_of fields ''method'' = Some (req_Method (getRequest ''nowhere.example'')))"
proof -
  have a: "req_Method (getRequest ''nowhere.example'') \<noteq> ''CONNECT''"
    by (simp add: getRequest_def)
  have b: "\<not> isWebSocketUpgrade (getRequest ''nowhere.example'')"
    by code_simp
  have c: "Router_Match (\<lambda>_ _. False) (srv_router serverA) (getRequest ''nowhere.example'') = None"
    by code_simp
  from unmatched_request_gets_502_json[OF a b c, of "proxyEnv []" "[nodeA]"] a b c
  show ?thesis by blast
qed

text \<open>
  C8. The claim has the values of \<open>Upgrade\<close> and \<open>Connection\<close> compared without regard to
  case. \<open>isWebSocketUpgrade\<close> compares them with \<open>==\<close>: a request with
  \<open>Connection: upgrade\<close> is not an upgrade for this server.
\<close>

theorem websocket_upgrade_lowercase_counterexample:
  "\<not> isWebSocketUpgrade
      ((getRequest ''a'')\<lparr>req_Header := [(''Upgrade'', [''websocket'']), (''Connection'', [''upgrade''])]\<rparr>)"
  by code_simp

text \<open>
  C8, amended. A request other than CONNECT (which is dispatched before the test) goes to
  the WebSocket bridge exactly when the first value of its \<open>Upgrade\<close> header is the string
  \<open>websocket\<close> and the first value of its \<open>Connection\<close> header is the string \<open>Upgrade\<close>, byte
  for byte; otherwise it is handled as plain HTTP.
\<close>

theorem websocket_upgrade_values_are_compared_exactly:
  assumes "req_Method r \<noteq> ''CONNECT''"
  shows "ServeHTTP e ms s h r =
           (if firstValue (req_Header r) ''Upgrade'' = ''websocket'' \<and>
               firstValue (req_Header r) ''Connection'' = ''Upgrade''
            then (handleWebSocket e ms s h r, s, [])
            else (case handleHTTP e ms s h r of (res, s') \<Rightarrow> (res, s', [])))
         \<and> (isWebSocketUpgrade r \<longleftrightarrow>
              firstValue (req_Header r) ''Upgrade'' = ''websocket'' \<and>
              firstValue (req_Header r) ''Connection'' = ''Upgrade'')"
  using assms
  by (simp add: ServeHTTP_def isWebSocketUpgrade_def Header_Get_def firstValue_def
      canon_Upgrade canon_Connection)

text \<open>
  Two requests for a host that no route matches show which handler was taken: with
  \<open>Connection: Upgrade\<close> the answer is the plain-text 502 of \<open>handleWebSocket\<close>, with
  \<open>Connection: upgrade\<close> it is the JSON 502 of \<open>handleNoMatch\<close>.
\<close>

theorem websocket_upgrade_values_are_compared_exactly_witness:
  "req_Method (upgradeRequest ''nowhere.example'' ''Upgrade'') \<noteq> ''CONNECT'' \<and>
   req_Method (upgradeRequest ''nowhere.example'' ''upgrade'') \<noteq> ''CONNECT'' \<and>
   isWebSocketUpgrade (upgradeRequest ''nowhere.example'' ''Upgrade'') \<and>
   ServeHTTP (proxyEnv []) (\<lambda>_ _. False) serverA [nodeA] (upgradeRequest ''nowhere.example'' ''Upgrade'')
     = (Responded (http_Error ''No matching route found'' 502), serverA, []) \<and>
   \<not> isWebSocketUpgrade (upgradeRequest ''nowhere.example'' ''upgrade'') \<and>
   ServeHTTP (proxyEnv []) (\<lambda>_ _. False) serverA [nodeA] (upgradeRequest ''nowhere.example'' ''upgrade'')
     = (Responded (handleNoMatch (upgradeRequest ''nowhere.example'' ''upgrade'')), serverA, [])"
proof -
  let ?r = "upgradeRequest ''nowhere.example'' ''Upgrade''"
  let ?r' = "upgradeRequest ''nowhere.example'' ''upgrade''"
  have a: "req_Method ?r \<noteq> ''CONNECT''" and a': "req_Method ?r' \<noteq> ''CONNECT''"
    by (simp_all add: upgradeRequest_def getRequest_def)
  have v: "firstValue (req_Header ?r) ''Upgrade'' = ''websocket''"
    "firstValue (req_Header ?r) ''Connection'' = ''Upgrade''"
    "firstValue (req_Header ?r') ''Connection'' \<noteq> ''Upgrade''"
    by (simp_all add: firstValue_def upgradeRequest_def)
  have w: "handleWebSocket (proxyEnv []) (\<lambda>_ _. False) serverA [nodeA] ?r
             = Responded (http_Error ''No matching route found'' 502)"
    by code_simp
  have p: "handleHTTP (proxyEnv []) (\<lambda>_ _. False) serverA [nodeA] ?r'
             = (Responded (handleNoMatch ?r'), serverA)"
    by code_simp
  from websocket_upgrade_values_are_compared_exactly[OF a, of "proxyEnv []" "\<lambda>_ _. False" serverA "[nodeA]"]
    websocket_upgrade_values_are_compared_exactly[OF a', of "proxyEnv []" "\<lambda>_ _. False" serverA "[nodeA]"]
    a a' v w p
  show ?thesis by simp
qed

subsection \<open>The bridge behind the dispatch\<close>

text \<open>
  A request that \<open>isWebSocketUpgrade\<close> accepts has the headers \<open>Upgrade\<close> and \<open>Connection\<close>,
  and \<open>handleWebSocket\<close> hands all headers of the request to \<open>Dialer.Dial\<close>, which does not
  accept these two: for such a request the handler never gets as far as the bridge.
\<close>

lemma isWebSocketUpgrade_duplicateHeader:
  assumes "isWebSocketUpgrade r"
  shows "duplicateHeader (req_Header r)"
proof -
  from assms have g: "Header_Get (req_Header r) ''Upgrade'' = ''websocket''"
    unfolding isWebSocketUpgrade_def by (rule conjunct1)
  have "map_of (req_Header r) ''Upgrade'' \<noteq> None"
  proof
    assume "map_of (req_Header r) ''Upgrade'' = None"
    then have "Header_Get (req_Header r) ''Upgrade'' = []"
      by (simp add: Header_Get_def canon_Upgrade)
    with g show False by simp
  qed
  then have "''Upgrade'' \<in> set (map fst (req_Header r))"
    by (simp add: map_of_eq_None_iff)
  then show ?thesis
    unfolding duplicateHeader_def list_ex_iff by (rule bexI[rotated]) simp
qed

lemma upgrade_request_is_not_bridged:
  assumes "isWebSocketUpgrade r"
  shows "handleWebSocket e ms s h r \<noteq> Bridged backendURL proxy"
  using isWebSocketUpgrade_duplicateHeader[OF assms]
  by (auto simp: handleWebSocket_def Dialer_Dial_def Let_def split: option.splits upgrade.splits)

section \<open>Properties of the HTTP forwarder\<close>

text \<open>What \<open>Header.Add\<close> and \<open>copyHeaders\<close> do to the values stored under a name.\<close>

lemma map_of_map_upd:
  "map_of (map (\<lambda>(k', vs'). if k' = k then (k', f vs') else (k', vs')) h) k'' =
     (if k'' = k then map_option f (map_of h k) else map_of h k'')"
  by (induction h) auto

lemma headerValues_Add:
  "headerValues (Header_Add h key v) k =
     (if k = CanonicalMIMEHeaderKey key then headerValues h k @ [v] else headerValues h k)"
proof (cases "map_of h (CanonicalMIMEHeaderKey key)")
  case None
  then show ?thesis
    by (auto simp: Header_Add_def headerValues_def Let_def split: option.splits)
next
  case (Some vs)
  then show ?thesis
    using map_of_map_upd[of "CanonicalMIMEHeaderKey key" "\<lambda>vs'. vs' @ [v]" h k]
    by (auto simp: Header_Add_def headerValues_def Let_def split: option.splits)
qed

lemma headerValues_foldl_Add:
  "headerValues (foldl (\<lambda>d v. Header_Add d key v) h vv) k =
     (if k = CanonicalMIMEHeaderKey key then headerValues h k @ vv else headerValues h k)"
  by (induction vv arbitrary: h) (simp_all add: headerValues_Add)

lemma headerValues_copyHeaders:
  "headerValues (copyHeaders dst src) k =
     headerValues dst k @ concat (map snd (filter (\<lambda>(k', vv). CanonicalMIMEHeaderKey k' = k) src))"
  by (induction dst src rule: copyHeaders.induct) (auto simp: headerValues_foldl_Add)

lemma concat_filter_distinct:
  "distinct (map fst src) \<Longrightarrow>
     concat (map snd (filter (\<lambda>(k', vv). k' = k) src)) = headerValues src k"
proof (induction src)
  case Nil
  then show ?case by (simp add: headerValues_def)
next
  case (Cons a src)
  obtain k' vv where a: "a = (k', vv)" by (cases a)
  show ?case
  proof (cases "k' = k")
    case True
    with Cons.prems a have "k \<notin> fst ` set src" by auto
    then have "filter (\<lambda>(k', vv). k' = k) src = []"
      by (force simp: filter_empty_conv image_iff)
    with True a show ?thesis by (simp add: headerValues_def)
  next
    case False
    with Cons a show ?thesis by (simp add: headerValues_def)
  qed
qed

lemma copyHeaders_values:
  assumes "distinct (map fst src)" and "\<forall>k\<in>set (map fst src). CanonicalMIMEHeaderKey k = k"
  shows "headerValues (copyHeaders [] src) k = headerValues src k"
proof -
  from assms(2) have "filter (\<lambda>(k', vv). CanonicalMIMEHeaderKey k' = k) src = filter (\<lambda>(k', vv). k' = k) src"
    by (intro filter_cong) auto
  moreover have "headerValues [] k = []" by (simp add: headerValues_def)
  ultimately show ?thesis
    using concat_filter_distinct[OF assms(1), of k] by (simp add: headerValues_copyHeaders)
qed

lemma colonScan_neg: "i < 0 \<Longrightarrow> colonScan a i = i"
  by (simp add: colonScan.simps)

lemma colonScan_hit: "0 \<le> i \<Longrightarrow> a ! nat i = CHR '':'' \<Longrightarrow> colonScan a i = i"
  by (simp add: colonScan.simps)

lemma colonScan_skip:
  "\<forall>j. i < j \<and> j \<le> n \<longrightarrow> a ! nat j \<noteq> CHR '':'' \<Longrightarrow> -1 \<le> i \<Longrightarrow> i \<le> n \<Longrightarrow>
     colonScan a n = colonScan a i"
proof (induction a n rule: colonScan.induct)
  case (1 a n)
  show ?case
  proof (cases "i = n")
    case True
    then show ?thesis by simp
  next
    case False
    with 1(4) have lt: "i < n" by simp
    with 1(3) have n0: "0 \<le> n" by simp
    from 1(2) lt have ne: "a ! nat n \<noteq> CHR '':''" by simp
    from n0 ne have "colonScan a n = colonScan a (n - 1)"
      by (subst colonScan.simps) simp
    also have "\<dots> = colonScan a i"
      using 1(1)[OF _ _ 1(3)] n0 ne 1(2) lt by simp
    finally show ?thesis .
  qed
qed

lemma colonScan_no_colon:
  assumes "CHR '':'' \<notin> set a"
  shows "colonScan a (int (length a) - 1) = -1"
proof -
  have "\<forall>j. -1 < j \<and> j \<le> int (length a) - 1 \<longrightarrow> a ! nat j \<noteq> CHR '':''"
    using assms by (auto simp: in_set_conv_nth)
  from colonScan_skip[OF this] have "colonScan a (int (length a) - 1) = colonScan a (-1)" by simp
  then show ?thesis by (simp add: colonScan_neg)
qed

lemma colonScan_last_colon:
  assumes "CHR '':'' \<notin> set p"
  shows "colonScan (h @ '':'' @ p) (int (length (h @ '':'' @ p)) - 1) = int (length h)"
proof -
  let ?a = "h @ '':'' @ p"
  have "\<forall>j. int (length h) < j \<and> j \<le> int (length ?a) - 1 \<longrightarrow> ?a ! nat j \<noteq> CHR '':''"
  proof (intro allI impI)
    fix j assume j: "int (length h) < j \<and> j \<le> int (length ?a) - 1"
    define m where "m = nat j - Suc (length h)"
    from j have m: "m < length p" and nj: "nat j = length h + Suc m"
      by (auto simp: m_def)
    from m have "p ! m \<in> set p" by (rule nth_mem)
    moreover have "?a ! nat j = p ! m"
      unfolding nj by (simp only: nth_append_length_plus) simp
    ultimately show "?a ! nat j \<noteq> CHR '':''" using assms by auto
  qed
  from colonScan_skip[OF this] have "colonScan ?a (int (length ?a) - 1) = colonScan ?a (int (length h))"
    by simp
  also have "\<dots> = int (length h)"
    by (rule colonScan_hit) (simp_all add: nth_append)
  finally show ?thesis .
qed

lemma proxyReqHost_no_colon: "CHR '':'' \<notin> set a \<Longrightarrow> proxyReqHost a = a"
  by (simp add: proxyReqHost_def Let_def colonScan_no_colon)

lemma proxyReqHost_colon:
  assumes "CHR '':'' \<notin> set p"
  shows "proxyReqHost (h @ '':'' @ p) = (if p \<noteq> [] \<and> isDigit (last p) \<and> h \<noteq> [] then h else h @ '':'' @ p)"
proof -
  let ?a = "h @ '':'' @ p"
  have "nat (int (length ?a) - 1) = length h + length p" by simp
  then have "?a ! nat (int (length ?a) - 1) = (CHR '':'' # p) ! length p"
    by (simp only: nth_append_length_plus append_Cons append_Nil)
  also have "\<dots> = last (CHR '':'' # p)"
    by (simp add: last_conv_nth)
  finally have l: "?a ! nat (int (length ?a) - 1) = last ?a" by simp
  have nd: "\<not> isDigit CHR '':''" by (simp add: isDigit_def)
  have lastp: "last ?a = (if p = [] then CHR '':'' else last p)" by simp
  show ?thesis
    unfolding proxyReqHost_def Let_def l colonScan_last_colon[OF assms]
    using nd lastp by auto
qed


lemma withoutPort_no_colon: "CHR '':'' \<notin> set a \<Longrightarrow> withoutPort a = a"
proof -
  assume nc: "CHR '':'' \<notin> set a"
  let ?rest = "take (length a - length (rev (takeWhile isDigit (rev a)))) a"
  have "?rest \<noteq> [] \<Longrightarrow> last ?rest \<in> set a"
    by (meson in_set_takeD last_in_set)
  with nc show ?thesis by (auto simp: withoutPort_def Let_def)
qed

lemma withoutPort_host_port:
  assumes "port \<noteq> []" and "list_all isDigit port"
  shows "withoutPort (host @ '':'' @ port) = host"
proof -
  have nd: "\<not> isDigit CHR '':''" by (simp add: isDigit_def)
  have "takeWhile isDigit (rev port @ CHR '':'' # rev host)
          = rev port @ takeWhile isDigit (CHR '':'' # rev host)"
    by (rule takeWhile_append2) (use assms(2) in \<open>auto simp: list_all_iff\<close>)
  with nd have "takeWhile isDigit (rev port @ CHR '':'' # rev host) = rev port" by simp
  then have "rev (takeWhile isDigit (rev (host @ '':'' @ port))) = port" by simp
  then show ?thesis using assms(1) by (simp add: withoutPort_def Let_def)
qed

text \<open>
  C7. The claim has the outbound \<open>Host\<close> equal to the node address without its port for
  every node address. For the address \<open>:8080\<close> (a backend on the local host) the address
  without its port is empty, and \<open>Forward\<close> keeps the whole address: it cuts at the last
  colon only when that colon is not the first byte (\<open>colonIdx > 0\<close>).
\<close>

theorem forwarded_request_host_counterexample:
  "preq_Host (proxyReq (getRequest ''a'') nodeLocal) = '':8080'' \<and>
   withoutPort (node_Addr nodeLocal) = []"
  by code_simp

text \<open>
  C7, amended. The outbound request carries every header of the inbound request with all
  of its values (for an inbound header as the server builds it: a map with canonical names).
  Its \<open>Host\<close> is the node address when the address has no colon; when the address is
  \<open>host:port\<close>, it is \<open>host\<close> if the port ends in a decimal digit and \<open>host\<close> is not empty,
  and the whole address otherwise. So for every address without a port and for every
  \<open>host:port\<close> with a decimal port and a non-empty host, \<open>Host\<close> is the address with its
  trailing \<open>:port\<close> stripped.
\<close>

theorem forwarded_request_headers_and_host:
  "(distinct (map fst (req_Header r)) \<and>
      (\<forall>k\<in>set (map fst (req_Header r)). CanonicalMIMEHeaderKey k = k)
      \<longrightarrow> (\<forall>k. headerValues (preq_Header (proxyReq r node)) k = headerValues (req_Header r) k)) \<and>
   (CHR '':'' \<notin> set (node_Addr node)
      \<longrightarrow> preq_Host (proxyReq r node) = node_Addr node \<and> withoutPort (node_Addr node) = node_Addr node) \<and>
   (\<forall>host port. node_Addr node = host @ '':'' @ port \<and> CHR '':'' \<notin> set port
      \<longrightarrow> preq_Host (proxyReq r node) =
            (if port \<noteq> [] \<and> isDigit (last port) \<and> host \<noteq> [] then host else node_Addr node)) \<and>
   (\<forall>host port. node_Addr node = host @ '':'' @ port \<and> port \<noteq> [] \<and> list_all isDigit port \<and> host \<noteq> []
      \<longrightarrow> preq_Host (proxyReq r node) = withoutPort (node_Addr node))"
proof (intro conjI impI allI)
  fix k
  assume "distinct (map fst (req_Header r)) \<and>
      (\<forall>k\<in>set (map fst (req_Header r)). CanonicalMIMEHeaderKey k = k)"
  then show "headerValues (preq_Header (proxyReq r node)) k = headerValues (req_Header r) k"
    by (simp add: proxyReq_def copyHeaders_values)
next
  assume "CHR '':'' \<notin> set (node_Addr node)"
  then show "preq_Host (proxyReq r node) = node_Addr node"
    by (simp add: proxyReq_def proxyReqHost_no_colon)
next
  assume "CHR '':'' \<notin> set (node_Addr node)"
  then show "withoutPort (node_Addr node) = node_Addr node"
    by (rule withoutPort_no_colon)
next
  fix host port
  assume "node_Addr node = host @ '':'' @ port \<and> CHR '':'' \<notin> set port"
  then show "preq_Host (proxyReq r node) =
            (if port \<noteq> [] \<and> isDigit (last port) \<and> host \<noteq> [] then host else node_Addr node)"
    using proxyReqHost_colon[of port host] by (simp add: proxyReq_def)
next
  fix host port
  assume a: "node_Addr node = host @ '':'' @ port \<and> port \<noteq> [] \<and> list_all isDigit port \<and> host \<noteq> []"
  have nd: "\<not> isDigit CHR '':''" by (simp add: isDigit_def)
  from a nd have nc: "CHR '':'' \<notin> set port" by (auto simp: list_all_iff)
  from a have "isDigit (last port)" by (simp add: list_all_iff)
  with a nc proxyReqHost_colon[of port host] have "preq_Host (proxyReq r node) = host"
    by (simp add: proxyReq_def)
  with a withoutPort_host_port[of port host] show "preq_Host (proxyReq r node) = withoutPort (node_Addr node)"
    by simp
qed

theorem forwarded_request_headers_and_host_witness:
  "distinct (map fst [(''Accept'', [''text/html'', ''*/*'']), (''X-Trace-Id'', [''7''])]) \<and>
   list_all (\<lambda>k. CanonicalMIMEHeaderKey k = k)
     (map fst [(''Accept'', [''text/html'', ''*/*'']), (''X-Trace-Id'', [''7''])]) \<and>
   (\<forall>k. headerValues (preq_Header (proxyReq
           ((getRequest ''a'')\<lparr>req_Header := [(''Accept'', [''text/html'', ''*/*'']), (''X-Trace-Id'', [''7''])]\<rparr>)
           nodeA)) k
        = headerValues [(''Accept'', [''text/html'', ''*/*'']), (''X-Trace-Id'', [''7''])] k) \<and>
   node_Addr nodeA = ''10.0.0.1'' @ '':'' @ ''8080'' \<and> CHR '':'' \<notin> set ''8080'' \<and>
   list_all isDigit ''8080'' \<and>
   preq_Host (proxyReq
           ((getRequest ''a'')\<lparr>req_Header := [(''Accept'', [''text/html'', ''*/*'']), (''X-Trace-Id'', [''7''])]\<rparr>)
           nodeA) = ''10.0.0.1'' \<and>
   withoutPort (node_Addr nodeA) = ''10.0.0.1'' \<and>
   CHR '':'' \<notin> set (node_Addr (nodeA\<lparr>node_Addr := ''backend1''\<rparr>)) \<and>
   preq_Host (proxyReq (getRequest ''a'') (nodeA\<lparr>node_Addr := ''backend1''\<rparr>)) = ''backend1''"
proof -
  let ?H = "[(''Accept'', [''text/html'', ''*/*'']), (''X-Trace-Id'', [''7''])]"
  let ?r = "(getRequest ''a'')\<lparr>req_Header := ?H\<rparr>"
  have hdr: "req_Header ?r = ?H" by simp
  have d: "distinct (map fst ?H)" by simp
  have c: "\<forall>k\<in>set (map fst ?H). CanonicalMIMEHeaderKey k = k" by code_simp
  have a: "node_Addr nodeA = ''10.0.0.1'' @ '':'' @ ''8080''" by (simp add: nodeA_def)
  have nc: "CHR '':'' \<notin> set ''8080''" by simp
  have dg: "list_all isDigit ''8080''" by code_simp
  have nb: "CHR '':'' \<notin> set (node_Addr (nodeA\<lparr>node_Addr := ''backend1''\<rparr>))" by simp
  note t1 = forwarded_request_headers_and_host[of ?r nodeA]
  note t2 = forwarded_request_headers_and_host[of "getRequest ''a''" "nodeA\<lparr>node_Addr := ''backend1''\<rparr>"]
  from t1 d c hdr have h: "\<forall>k. headerValues (preq_Header (proxyReq ?r nodeA)) k = headerValues ?H k"
    by simp
  have ld: "isDigit (last ''8080'')" by code_simp
  from t1[THEN conjunct2, THEN conjunct2, THEN conjunct2, rule_format, of "''10.0.0.1''" "''8080''"] a dg
  have ho: "preq_Host (proxyReq ?r nodeA) = withoutPort (node_Addr nodeA)"
    by simp
  from t1[THEN conjunct2, THEN conjunct2, THEN conjunct1, rule_format, of "''10.0.0.1''" "''8080''"] a nc ld
  have ho2: "preq_Host (proxyReq ?r nodeA) = ''10.0.0.1''"
    by simp
  from t2 nb have ho3: "preq_Host (proxyReq (getRequest ''a'') (nodeA\<lparr>node_Addr := ''backend1''\<rparr>)) = ''backend1''"
    by simp
  from ho ho2 have wp: "withoutPort (node_Addr nodeA) = ''10.0.0.1''" by simp
  from d c h a nc dg wp ho2 ho3 nb show ?thesis unfolding list_all_iff by blast
qed

section \<open>Properties of the CONNECT tunnel\<close>

text \<open>
  C6. For a matched node with a proxy URL, when the URL parses, the proxy accepts the
  connection and the request can be written and an answer read: \<open>connectThroughProxy\<close>
  dials the proxy's host:port, writes exactly
  \<open>CONNECT <addr> HTTP/1.1\r\nHost: <addr>\r\n\r\n\<close> and reads once. It returns the proxy
  connection if and only if the answer has at least 12 bytes and bytes 9 to 11 are \<open>200\<close>,
  which for an answer that starts with a status line \<open>HTTP/1.x <code>\<close> says that the status
  code is 200. With any other answer it closes the proxy connection and returns an error,
  and \<open>handleConnect\<close> answers 502. \<open>handleConnect\<close> does what \<open>connectThroughProxy\<close> does and
  goes on from there.
\<close>

theorem proxy_connect_requires_200:
  assumes m: "matchedNode ms (srv_router s) h r = Some node"
    and p: "node_Proxy node \<noteq> []"
    and u: "env_url_Parse e (node_Proxy node) = Some (scheme, proxyHost)"
    and d: "env_Dial e proxyHost = Some c"
    and w: "env_Write_ok e c (''CONNECT '' @ node_Addr node @ '' HTTP/1.1'' @ CRLF @
                              ''Host: '' @ node_Addr node @ CRLF @ CRLF)"
    and rd: "env_Read e c = Some response"
  shows "\<exists>res evs.
           connectThroughProxy e (node_Proxy node) (node_Addr node) = (res, evs) \<and>
           take 3 evs = [Dialed proxyHost,
                         Wrote c (''CONNECT '' @ node_Addr node @ '' HTTP/1.1'' @ CRLF @
                                  ''Host: '' @ node_Addr node @ CRLF @ CRLF),
                         ReadFrom c] \<and>
           (res = Inr c \<longleftrightarrow> 12 \<le> length response \<and> take 3 (drop 9 response) = ''200'') \<and>
           (\<forall>v code rest. response = ''HTTP/1.'' @ [v] @ '' '' @ code @ rest \<and> length code = 3
              \<longrightarrow> (res = Inr c \<longleftrightarrow> code = ''200'')) \<and>
           (res = Inr c \<longrightarrow> Closed c \<notin> set evs) \<and>
           (res \<noteq> Inr c \<longrightarrow> res = Inl (ProxyNon200 (take 1024 response)) \<and> drop 3 evs = [Closed c] \<and>
              handleConnect e ms s h r =
                (Responded (http_Error ''Failed to connect to target'' 502), evs)) \<and>
           (\<exists>evs'. snd (handleConnect e ms s h r) = evs @ evs')"
proof -
  let ?req = "''CONNECT '' @ node_Addr node @ '' HTTP/1.1'' @ CRLF @
              ''Host: '' @ node_Addr node @ CRLF @ CRLF"
  let ?ok = "12 \<le> length response \<and> take 3 (drop 9 response) = ''200''"
  have tk: "(length (take 1024 response) < 12 \<or> take 3 (drop 9 (take 1024 response)) \<noteq> ''200'') \<longleftrightarrow> \<not> ?ok"
    by (auto simp: drop_take min_def)
  have line: "?ok \<longleftrightarrow> code = ''200''"
    if "response = ''HTTP/1.'' @ [v] @ '' '' @ code @ rest" "length code = 3" for v code rest
    using that by auto
  show ?thesis
  proof (cases ?ok)
    case True
    with u d w rd tk have c: "connectThroughProxy e (node_Proxy node) (node_Addr node) =
        (Inr c, [Dialed proxyHost, Wrote c ?req, ReadFrom c])"
      by (simp add: connectThroughProxy_def Let_def)
    have "\<exists>evs'. snd (handleConnect e ms s h r) = [Dialed proxyHost, Wrote c ?req, ReadFrom c] @ evs'"
      using m p c by (simp add: handleConnect_def Let_def split: hijack.splits)
    with c True line show ?thesis by auto
  next
    case False
    with u d w rd tk have c: "connectThroughProxy e (node_Proxy node) (node_Addr node) =
        (Inl (ProxyNon200 (take 1024 response)), [Dialed proxyHost, Wrote c ?req, ReadFrom c, Closed c])"
      by (simp add: connectThroughProxy_def Let_def)
    have "handleConnect e ms s h r = (Responded (http_Error ''Failed to connect to target'' 502),
            [Dialed proxyHost, Wrote c ?req, ReadFrom c, Closed c])"
      using m p c by (simp add: handleConnect_def)
    with c False line show ?thesis by auto
  qed
qed

text \<open>Scenario S5.\<close>

theorem proxy_connect_requires_200_witness:
  "matchedNode (\<lambda>_ _. False) (srv_router serverP) [nodeProxied] connectRequest = Some nodeProxied \<and>
   node_Proxy nodeProxied \<noteq> [] \<and>
   env_url_Parse (proxyEnv (''HTTP/1.1 200 Connection established'' @ CRLF @ CRLF)) (node_Proxy nodeProxied)
     = Some (''http'', ''127.0.0.1:9091'') \<and>
   env_Dial (proxyEnv (''HTTP/1.1 200 Connection established'' @ CRLF @ CRLF)) ''127.0.0.1:9091'' = Some 7 \<and>
   env_Write_ok (proxyEnv (''HTTP/1.1 200 Connection established'' @ CRLF @ CRLF)) 7
     (''CONNECT '' @ node_Addr nodeProxied @ '' HTTP/1.1'' @ CRLF @
      ''Host: '' @ node_Addr nodeProxied @ CRLF @ CRLF) \<and>
   env_Read (proxyEnv (''HTTP/1.1 200 Connection established'' @ CRLF @ CRLF)) 7
     = Some (''HTTP/1.1 200 Connection established'' @ CRLF @ CRLF) \<and>
   connectThroughProxy (proxyEnv (''HTTP/1.1 200 Connection established'' @ CRLF @ CRLF))
       (node_Proxy nodeProxied) (node_Addr nodeProxied)
     = (Inr 7, [Dialed ''127.0.0.1:9091'',
                Wrote 7 (''CONNECT api.example.com:443 HTTP/1.1'' @ CRLF @
                         ''Host: api.example.com:443'' @ CRLF @ CRLF),
                ReadFrom 7]) \<and>
   handleConnect (proxyEnv (''HTTP/1.1 200 Connection established'' @ CRLF @ CRLF)) (\<lambda>_ _. False)
       serverP [nodeProxied] connectRequest
     = (Tunnelled 3 7,
        [Dialed ''127.0.0.1:9091'',
         Wrote 7 (''CONNECT api.example.com:443 HTTP/1.1'' @ CRLF @
                  ''Host: api.example.com:443'' @ CRLF @ CRLF),
         ReadFrom 7,
         Wrote 3 (''HTTP/1.1 200 Connection Established'' @ CRLF @ CRLF)])"
proof -
  let ?resp = "''HTTP/1.1 200 Connection established'' @ CRLF @ CRLF"
  let ?e = "proxyEnv ?resp"
  have m: "matchedNode (\<lambda>_ _. False) (srv_router serverP) [nodeProxied] connectRequest = Some nodeProxied"
    by code_simp
  have p: "node_Proxy nodeProxied \<noteq> []" by (simp add: nodeProxied_def)
  have u: "env_url_Parse ?e (node_Proxy nodeProxied) = Some (''http'', ''127.0.0.1:9091'')"
    by (simp add: proxyEnv_def nodeProxied_def)
  have d: "env_Dial ?e ''127.0.0.1:9091'' = Some 7" by (simp add: proxyEnv_def)
  have w: "env_Write_ok ?e 7 (''CONNECT '' @ node_Addr nodeProxied @ '' HTTP/1.1'' @ CRLF @
      ''Host: '' @ node_Addr nodeProxied @ CRLF @ CRLF)"
    by (simp add: proxyEnv_def)
  have rd: "env_Read ?e 7 = Some ?resp" by (simp add: proxyEnv_def)
  have ok: "12 \<le> length ?resp \<and> take 3 (drop 9 ?resp) = ''200''" by (simp add: CRLF_def)
  from proxy_connect_requires_200[OF m p u d w rd] ok obtain evs where
    c: "connectThroughProxy ?e (node_Proxy nodeProxied) (node_Addr nodeProxied) = (Inr 7, evs)"
    and t: "take 3 evs = [Dialed ''127.0.0.1:9091'',
                         Wrote 7 (''CONNECT '' @ node_Addr nodeProxied @ '' HTTP/1.1'' @ CRLF @
                                  ''Host: '' @ node_Addr nodeProxied @ CRLF @ CRLF),
                         ReadFrom 7]"
    by blast
  have ev: "connectThroughProxy ?e (node_Proxy nodeProxied) (node_Addr nodeProxied)
     = (Inr 7, [Dialed ''127.0.0.1:9091'',
                Wrote 7 (''CONNECT api.example.com:443 HTTP/1.1'' @ CRLF @
                         ''Host: api.example.com:443'' @ CRLF @ CRLF),
                ReadFrom 7])"
    by code_simp
  have hc: "handleConnect ?e (\<lambda>_ _. False) serverP [nodeProxied] connectRequest
     = (Tunnelled 3 7,
        [Dialed ''127.0.0.1:9091'',
         Wrote 7 (''CONNECT api.example.com:443 HTTP/1.1'' @ CRLF @
                  ''Host: api.example.com:443'' @ CRLF @ CRLF),
         ReadFrom 7,
         Wrote 3 (''HTTP/1.1 200 Connection Established'' @ CRLF @ CRLF)])"
    by code_simp
  from m p u d w rd c ev hc show ?thesis by blast
qed

section \<open>Properties of the rule parser\<close>

text \<open>
  Text appended to the input does not change a successful parse, as long as it cannot be
  taken for the continuation of a loop: \<open>parseUnary\<close> never looks past the closing brace or
  parenthesis it ends on, and the two loops look only at the next two non-blank bytes.
\<close>

lemma skipWhitespace_idem: "skipWhitespace (skipWhitespace s) = skipWhitespace s"
  unfolding skipWhitespace_def by (induction s) auto

lemma skipWhitespace_append: "skipWhitespace (skipWhitespace a @ x) = skipWhitespace (a @ x)"
  unfolding skipWhitespace_def by (induction a) auto

lemma skipWhitespace_append_ne:
  assumes "skipWhitespace a \<noteq> []"
  shows "skipWhitespace (a @ x) = skipWhitespace a @ x"
proof -
  let ?P = "\<lambda>c. c = CHR '' '' \<or> c = CHR 0x09 \<or> c = CHR 0x0A \<or> c = CHR 0x0D"
  from assms have "\<not> (\<forall>c\<in>set a. ?P c)"
    unfolding skipWhitespace_def dropWhile_eq_Nil_conv .
  then obtain c where c: "c \<in> set a" "\<not> ?P c" by blast
  have "dropWhile ?P (a @ x) = dropWhile ?P a @ x"
    using c by (rule dropWhile_append1[where P = ?P and x = c])
  then show ?thesis
    by (simp only: skipWhitespace_def)
qed

lemma skipWhitespace_Nil: "skipWhitespace [] = []"
  by (simp add: skipWhitespace_def)

lemma matchChar_ne: "matchChar c s \<Longrightarrow> s \<noteq> []"
  by (auto simp: matchChar_def)

lemma matchChar_append: "matchChar c s \<Longrightarrow> matchChar c (s @ x)"
  by (cases s) (auto simp: matchChar_def)

lemma matchChar_append_ne: "s \<noteq> [] \<Longrightarrow> matchChar c (s @ x) = matchChar c s"
  by (cases s) (auto simp: matchChar_def)

lemma matchString_ne: "matchString [a, b] s \<Longrightarrow> s \<noteq> [] \<and> 2 \<le> length s"
  by (cases s; cases "tl s") (auto simp: matchString_def)

lemma matchString_append: "matchString m s \<Longrightarrow> matchString m (s @ x)"
proof -
  assume "matchString m s"
  then have a: "take (length m) s = m" by (simp add: matchString_def)
  then have "length (take (length m) s) = length m" by simp
  then have "length m \<le> length s" by simp
  with a show ?thesis by (simp add: matchString_def)
qed

lemma parseMatcher_skip: "parseMatcher rx (skipWhitespace s) = parseMatcher rx s"
  by (simp add: parseMatcher_def skipWhitespace_idem)

lemma parseUnary_skip: "parseUnary rx (skipWhitespace s) = parseUnary rx s"
  by (subst (1 2) parseUnary.simps) (simp add: skipWhitespace_idem)

lemma parseAnd_skip: "parseAnd rx (skipWhitespace s) = parseAnd rx s"
  by (subst (1 2) parseAnd.simps) (simp add: parseUnary_skip)

lemma parseOr_skip: "parseOr rx (skipWhitespace s) = parseOr rx s"
  by (subst (1 2) parseOr.simps) (simp add: parseAnd_skip)

lemma parseAndLoop_skip: "parseAndLoop rx l (skipWhitespace s) = parseAndLoop rx l s"
  by (subst (1 2) parseAndLoop.simps) (simp add: skipWhitespace_idem)

lemma parseOrLoop_skip: "parseOrLoop rx l (skipWhitespace s) = parseOrLoop rx l s"
  by (subst (1 2) parseOrLoop.simps) (simp add: skipWhitespace_idem)

lemma scanValue_append:
  "scanValue d a = (0, v, r) \<Longrightarrow> scanValue d (a @ x) = (0, v, r @ x)"
proof (induction a arbitrary: d v r)
  case Nil
  then show ?case by (cases x) auto
next
  case (Cons c cs)
  show ?case
  proof (cases "d = 0")
    case True
    with Cons.prems have "v = []" "r = c # cs" by auto
    with True show ?thesis by simp
  next
    case False
    let ?d = "(if c = CHR ''{'' then d + 1 else if c = CHR ''}'' then d - 1 else d)"
    show ?thesis
    proof (cases "?d > 0")
      case True
      obtain d2 v2 r2 where sv: "scanValue ?d cs = (d2, v2, r2)"
        by (cases "scanValue ?d cs") auto
      with Cons.prems False True have e: "d2 = 0" "v = c # v2" "r = r2"
        by (auto simp: Let_def split: if_splits)
      from Cons.IH[OF sv[unfolded e(1)]] have "scanValue ?d (cs @ x) = (0, v2, r2 @ x)" .
      with False True e show ?thesis by (auto simp: Let_def)
    next
      case F2: False
      with Cons.prems False show ?thesis
        by (auto simp: Let_def split: if_splits)
    qed
  qed
qed

lemma scanValue_rest_ne:
  "scanValue d a = (0, v, r) \<Longrightarrow> d > 0 \<Longrightarrow> r \<noteq> []"
proof (induction a arbitrary: d v r)
  case Nil
  then show ?case by simp
next
  case (Cons c cs)
  let ?d = "(if c = CHR ''{'' then d + 1 else if c = CHR ''}'' then d - 1 else d)"
  show ?case
  proof (cases "?d > 0")
    case True
    obtain d2 v2 r2 where sv: "scanValue ?d cs = (d2, v2, r2)"
      by (cases "scanValue ?d cs") auto
    with Cons.prems True have e: "d2 = 0" "r = r2"
      by (auto simp: Let_def split: if_splits)
    from Cons.IH[OF sv[unfolded e(1)] True] e show ?thesis by simp
  next
    case False
    with Cons.prems show ?thesis
      by (auto simp: Let_def split: if_splits)
  qed
qed

lemma parseMatcher_append:
  assumes "parseMatcher rx s = Inr (t, r)"
  shows "parseMatcher rx (s @ x) = Inr (t, r @ x)"
proof -
  let ?P = "\<lambda>c. c \<noteq> CHR ''{'' \<and> c \<noteq> CHR '' ''"
  let ?s0 = "skipWhitespace s"
  let ?name = "takeWhile ?P ?s0"
  let ?s1 = "dropWhile ?P ?s0"
  let ?s2 = "skipWhitespace ?s1"
  from assms have name: "?name \<noteq> []" and br: "matchChar CHR ''{'' ?s2"
    by (auto simp: parseMatcher_def Let_def split: if_splits)
  obtain d v s3 where sv: "scanValue 1 (drop 1 ?s2) = (d, v, s3)"
    by (cases "scanValue 1 (drop 1 ?s2)") auto
  from assms name br sv have d: "d = 0"
    by (auto simp: parseMatcher_def Let_def split: if_splits)
  from assms name br sv d obtain rule where cm: "createMatcher rx ?name v = Inr rule"
    and res: "t = rule" "r = drop 1 s3"
    by (auto simp: parseMatcher_def Let_def split: if_splits sum.splits)
  from name have s0: "?s0 \<noteq> []" by auto
  then have a0: "skipWhitespace (s @ x) = ?s0 @ x" by (rule skipWhitespace_append_ne)
  from br have s2: "?s2 \<noteq> []" by (rule matchChar_ne)
  have s1: "?s1 \<noteq> []"
  proof
    assume "?s1 = []"
    then have "?s2 = []" by (simp only: skipWhitespace_Nil)
    with s2 show False by simp
  qed
  from s1 have "\<not> (\<forall>c\<in>set ?s0. ?P c)"
    unfolding dropWhile_eq_Nil_conv .
  then obtain c where c: "c \<in> set ?s0" "\<not> ?P c"
    by blast
  have tw: "takeWhile ?P (?s0 @ x) = ?name"
    using c by (rule takeWhile_append1[where P = ?P and x = c])
  have dw: "dropWhile ?P (?s0 @ x) = ?s1 @ x"
    using c by (rule dropWhile_append1[where P = ?P and x = c])
  from s2 have a2: "skipWhitespace (?s1 @ x) = ?s2 @ x" by (rule skipWhitespace_append_ne)
  from br have br': "matchChar CHR ''{'' (?s2 @ x)" by (rule matchChar_append)
  from s2 have dr: "drop 1 (?s2 @ x) = drop 1 ?s2 @ x" by (cases ?s2) auto
  from scanValue_append[OF sv[unfolded d]] have sv': "scanValue 1 (drop 1 ?s2 @ x) = (0, v, s3 @ x)" .
  from scanValue_rest_ne[OF sv[unfolded d]] have "s3 \<noteq> []" by simp
  then have dr3: "drop 1 (s3 @ x) = drop 1 s3 @ x" by (cases s3) auto
  show ?thesis
    unfolding parseMatcher_def Let_def a0 tw dw a2 dr sv'
    using name br' cm res dr3 by simp
qed


lemma matchString_append_ne:
  "matchString [a, b] s \<Longrightarrow> drop 2 (s @ x) = drop 2 s @ x"
  using matchString_ne[of a b s] by simp

lemma matchChar_drop_append: "matchChar c s \<Longrightarrow> drop 1 (s @ x) = drop 1 s @ x"
  by (cases s) (auto simp: matchChar_def)

lemma matchChar_not_matchString:
  "matchChar c s \<Longrightarrow> c \<noteq> a \<Longrightarrow> \<not> matchString [a, b] (s @ x)"
  by (cases s) (auto simp: matchChar_def matchString_def)

lemma matchString_not_matchString:
  "matchString [c, d] s \<Longrightarrow> c \<noteq> a \<Longrightarrow> \<not> matchString [a, b] (s @ x)"
  by (cases s) (auto simp: matchString_def)

lemma matchString_skip_append:
  "matchString [a, b] (skipWhitespace s) \<Longrightarrow> skipWhitespace (s @ x) = skipWhitespace s @ x"
  using matchString_ne[of a b "skipWhitespace s"] skipWhitespace_append_ne[of s x] by blast

lemma matchChar_skip_append:
  "matchChar c (skipWhitespace s) \<Longrightarrow> skipWhitespace (s @ x) = skipWhitespace s @ x"
  using matchChar_ne[of c "skipWhitespace s"] skipWhitespace_append_ne[of s x] by blast

lemma parseUnary_skip_append:
  "parseUnary rx (skipWhitespace (a @ x)) = parseUnary rx (skipWhitespace a @ x)"
  using parseUnary_skip[of rx "a @ x"] parseUnary_skip[of rx "skipWhitespace a @ x"]
    skipWhitespace_append[of a x] by simp

lemma parseAnd_skip_append:
  "parseAnd rx (skipWhitespace (a @ x)) = parseAnd rx (skipWhitespace a @ x)"
  using parseAnd_skip[of rx "a @ x"] parseAnd_skip[of rx "skipWhitespace a @ x"]
    skipWhitespace_append[of a x] by simp

lemma parseOr_skip_append:
  "parseOr rx (skipWhitespace (a @ x)) = parseOr rx (skipWhitespace a @ x)"
  using parseOr_skip[of rx "a @ x"] parseOr_skip[of rx "skipWhitespace a @ x"]
    skipWhitespace_append[of a x] by simp

text \<open>Where a loop stops or goes on, the text in front of it cannot be taken for the
  other operator, whatever is appended.\<close>

lemma parseOrLoop_start:
  assumes "parseOrLoop rx l s = Inr (t, r)"
    and "\<not> matchString ''&&'' (skipWhitespace (r @ x))"
  shows "\<not> matchString ''&&'' (skipWhitespace (s @ x))"
proof (cases "matchString ''||'' (skipWhitespace s)")
  case True
  from matchString_skip_append[OF True] matchString_not_matchString[OF True, of "CHR ''&''" "CHR ''&''" x]
  show ?thesis by simp
next
  case False
  with assms(1) have "r = skipWhitespace s"
    by (subst (asm) parseOrLoop.simps) (simp add: Let_def)
  with assms(2) show ?thesis by (simp add: skipWhitespace_append)
qed


lemma parse_append:
  "\<forall>t r x. parseOr rx s = Inr (t, r) \<longrightarrow>
      \<not> matchString ''&&'' (skipWhitespace (r @ x)) \<longrightarrow> \<not> matchString ''||'' (skipWhitespace (r @ x)) \<longrightarrow>
      parseOr rx (s @ x) = Inr (t, skipWhitespace (r @ x))"
  "\<forall>t r x. parseOrLoop rx left s = Inr (t, r) \<longrightarrow>
      \<not> matchString ''&&'' (skipWhitespace (r @ x)) \<longrightarrow> \<not> matchString ''||'' (skipWhitespace (r @ x)) \<longrightarrow>
      parseOrLoop rx left (s @ x) = Inr (t, skipWhitespace (r @ x))"
  "\<forall>t r x. parseAnd rx s = Inr (t, r) \<longrightarrow>
      \<not> matchString ''&&'' (skipWhitespace (r @ x)) \<longrightarrow>
      parseAnd rx (s @ x) = Inr (t, skipWhitespace (r @ x))"
  "\<forall>t r x. parseAndLoop rx left s = Inr (t, r) \<longrightarrow>
      \<not> matchString ''&&'' (skipWhitespace (r @ x)) \<longrightarrow>
      parseAndLoop rx left (s @ x) = Inr (t, skipWhitespace (r @ x))"
  "\<forall>t r x. parseUnary rx s = Inr (t, r) \<longrightarrow> parseUnary rx (s @ x) = Inr (t, r @ x)"
proof (induct rx s and rx left s and rx s and rx left s and rx s
    rule: parseOr_parseOrLoop_parseAnd_parseAndLoop_parseUnary.induct)
  case (1 rx s)
  show ?case
  proof (intro allI impI)
    fix t r x
    assume a: "parseOr rx s = Inr (t, r)"
      and na: "\<not> matchString ''&&'' (skipWhitespace (r @ x))"
      and no: "\<not> matchString ''||'' (skipWhitespace (r @ x))"
    from a obtain left s1 where l: "parseAnd rx s = Inr (left, s1)"
      and lp: "parseOrLoop rx left s1 = Inr (t, r)"
      by (subst (asm) parseOr.simps) (auto split: sum.splits)
    from parseOrLoop_start[OF lp na] have "\<not> matchString ''&&'' (skipWhitespace (s1 @ x))" .
    with 1(1) l have l': "parseAnd rx (s @ x) = Inr (left, skipWhitespace (s1 @ x))" by blast
    from 1(2)[OF l refl] lp na no
    have "parseOrLoop rx left (s1 @ x) = Inr (t, skipWhitespace (r @ x))" by blast
    then have "parseOrLoop rx left (skipWhitespace (s1 @ x)) = Inr (t, skipWhitespace (r @ x))"
      by (simp only: parseOrLoop_skip)
    with l' show "parseOr rx (s @ x) = Inr (t, skipWhitespace (r @ x))"
      by (subst parseOr.simps) simp
  qed
next
  case (2 rx left s)
  show ?case
  proof (intro allI impI)
    fix t r x
    assume a: "parseOrLoop rx left s = Inr (t, r)"
      and na: "\<not> matchString ''&&'' (skipWhitespace (r @ x))"
      and no: "\<not> matchString ''||'' (skipWhitespace (r @ x))"
    let ?s1 = "skipWhitespace s"
    show "parseOrLoop rx left (s @ x) = Inr (t, skipWhitespace (r @ x))"
    proof (cases "matchString ''||'' ?s1")
      case False
      with a have e: "t = left" "r = ?s1"
        by (subst (asm) parseOrLoop.simps, simp add: Let_def)+
      from e have sk: "skipWhitespace (s @ x) = skipWhitespace (r @ x)"
        by (simp add: skipWhitespace_append)
      show ?thesis
        by (subst parseOrLoop.simps) (use sk no e in \<open>simp add: Let_def\<close>)
    next
      case True
      let ?s2 = "skipWhitespace (drop 2 ?s1)"
      from a True obtain right s3 where l: "parseAnd rx ?s2 = Inr (right, s3)"
        and lp: "parseOrLoop rx (OrRule left right) s3 = Inr (t, r)"
        by (subst (asm) parseOrLoop.simps) (auto simp: Let_def split: sum.splits)
      have sk: "skipWhitespace (s @ x) = ?s1 @ x" by (rule matchString_skip_append[OF True])
      have m: "matchString ''||'' (?s1 @ x)" by (rule matchString_append[OF True])
      have dr: "drop 2 (?s1 @ x) = drop 2 ?s1 @ x" by (rule matchString_append_ne[OF True])
      from parseOrLoop_start[OF lp na] have "\<not> matchString ''&&'' (skipWhitespace (s3 @ x))" .
      with 2(1)[OF refl] True l have "parseAnd rx (?s2 @ x) = Inr (right, skipWhitespace (s3 @ x))"
        by blast
      then have l': "parseAnd rx (skipWhitespace (drop 2 ?s1 @ x)) = Inr (right, skipWhitespace (s3 @ x))"
        by (simp only: parseAnd_skip_append)
      from 2(2)[OF refl _ l refl] True lp na no
      have "parseOrLoop rx (OrRule left right) (s3 @ x) = Inr (t, skipWhitespace (r @ x))" by blast
      then have lp': "parseOrLoop rx (OrRule left right) (skipWhitespace (s3 @ x)) = Inr (t, skipWhitespace (r @ x))"
        by (simp only: parseOrLoop_skip)
      show ?thesis
        by (subst parseOrLoop.simps) (simp only: Let_def sk m dr l' lp' if_True if_False not_True_eq_False not_False_eq_True sum.case prod.case)
    qed
  qed
next
  case (3 rx s)
  show ?case
  proof (intro allI impI)
    fix t r x
    assume a: "parseAnd rx s = Inr (t, r)"
      and na: "\<not> matchString ''&&'' (skipWhitespace (r @ x))"
    from a obtain left s1 where l: "parseUnary rx s = Inr (left, s1)"
      and lp: "parseAndLoop rx left s1 = Inr (t, r)"
      by (subst (asm) parseAnd.simps) (auto split: sum.splits)
    from 3(1) l have l': "parseUnary rx (s @ x) = Inr (left, s1 @ x)" by blast
    from 3(2)[OF l refl] lp na
    have "parseAndLoop rx left (s1 @ x) = Inr (t, skipWhitespace (r @ x))" by blast
    with l' show "parseAnd rx (s @ x) = Inr (t, skipWhitespace (r @ x))"
      by (subst parseAnd.simps) simp
  qed
next
  case (4 rx left s)
  show ?case
  proof (intro allI impI)
    fix t r x
    assume a: "parseAndLoop rx left s = Inr (t, r)"
      and na: "\<not> matchString ''&&'' (skipWhitespace (r @ x))"
    let ?s1 = "skipWhitespace s"
    show "parseAndLoop rx left (s @ x) = Inr (t, skipWhitespace (r @ x))"
    proof (cases "matchString ''&&'' ?s1")
      case False
      with a have e: "t = left" "r = ?s1"
        by (subst (asm) parseAndLoop.simps, simp add: Let_def)+
      from e have sk: "skipWhitespace (s @ x) = skipWhitespace (r @ x)"
        by (simp add: skipWhitespace_append)
      show ?thesis
        by (subst parseAndLoop.simps) (use sk na e in \<open>simp add: Let_def\<close>)
    next
      case True
      let ?s2 = "skipWhitespace (drop 2 ?s1)"
      from a True obtain right s3 where l: "parseUnary rx ?s2 = Inr (right, s3)"
        and lp: "parseAndLoop rx (AndRule left right) s3 = Inr (t, r)"
        by (subst (asm) parseAndLoop.simps) (auto simp: Let_def split: sum.splits)
      have sk: "skipWhitespace (s @ x) = ?s1 @ x" by (rule matchString_skip_append[OF True])
      have m: "matchString ''&&'' (?s1 @ x)" by (rule matchString_append[OF True])
      have dr: "drop 2 (?s1 @ x) = drop 2 ?s1 @ x" by (rule matchString_append_ne[OF True])
      from 4(1)[OF refl] True l have "parseUnary rx (?s2 @ x) = Inr (right, s3 @ x)"
        by blast
      then have l': "parseUnary rx (skipWhitespace (drop 2 ?s1 @ x)) = Inr (right, s3 @ x)"
        by (simp only: parseUnary_skip_append)
      from 4(2)[OF refl _ l refl] True lp na
      have lp': "parseAndLoop rx (AndRule left right) (s3 @ x) = Inr (t, skipWhitespace (r @ x))" by blast
      show ?thesis
        by (subst parseAndLoop.simps) (simp only: Let_def sk m dr l' lp' if_True if_False not_True_eq_False not_False_eq_True sum.case prod.case)
    qed
  qed
next
  case (5 rx s)
  show ?case
  proof (intro allI impI)
    fix t r x
    assume a: "parseUnary rx s = Inr (t, r)"
    let ?s1 = "skipWhitespace s"
    let ?s2 = "skipWhitespace (drop 1 ?s1)"
    show "parseUnary rx (s @ x) = Inr (t, r @ x)"
    proof (cases "matchChar CHR ''!'' ?s1")
      case True
      from a True obtain inner where l: "parseUnary rx ?s2 = Inr (inner, r)" and t: "t = NotRule inner"
        by (subst (asm) parseUnary.simps) (auto simp: Let_def split: sum.splits)
      have sk: "skipWhitespace (s @ x) = ?s1 @ x" by (rule matchChar_skip_append[OF True])
      have m: "matchChar CHR ''!'' (?s1 @ x)" by (rule matchChar_append[OF True])
      have dr: "drop 1 (?s1 @ x) = drop 1 ?s1 @ x" by (rule matchChar_drop_append[OF True])
      from 5(1)[OF refl True] l have "parseUnary rx (?s2 @ x) = Inr (inner, r @ x)" by blast
      then have l': "parseUnary rx (skipWhitespace (drop 1 ?s1 @ x)) = Inr (inner, r @ x)"
        by (simp only: parseUnary_skip_append)
      show ?thesis
        by (subst parseUnary.simps) (simp only: Let_def sk m dr l' t if_True if_False not_True_eq_False not_False_eq_True sum.case prod.case)
    next
      case nb: False
      show ?thesis
      proof (cases "matchChar CHR ''('' ?s1")
        case True
        from a nb True obtain rule s3 where l: "parseOr rx ?s2 = Inr (rule, s3)"
          and cl: "matchChar CHR '')'' (skipWhitespace s3)"
          and e: "t = rule" "r = drop 1 (skipWhitespace s3)"
          by (subst (asm) parseUnary.simps) (auto simp: Let_def split: sum.splits if_splits)
        have sk: "skipWhitespace (s @ x) = ?s1 @ x" by (rule matchChar_skip_append[OF True])
        have m: "matchChar CHR ''('' (?s1 @ x)" by (rule matchChar_append[OF True])
        from True have nm: "\<not> matchChar CHR ''!'' (?s1 @ x)"
          by (cases ?s1) (auto simp: matchChar_def)
        have dr: "drop 1 (?s1 @ x) = drop 1 ?s1 @ x" by (rule matchChar_drop_append[OF True])
        have sk3: "skipWhitespace (s3 @ x) = skipWhitespace s3 @ x"
          by (rule matchChar_skip_append[OF cl])
        from matchChar_not_matchString[OF cl, of "CHR ''&''" "CHR ''&''" x] sk3
        have na: "\<not> matchString ''&&'' (skipWhitespace (s3 @ x))" by simp
        from matchChar_not_matchString[OF cl, of "CHR ''|''" "CHR ''|''" x] sk3
        have no: "\<not> matchString ''||'' (skipWhitespace (s3 @ x))" by simp
        from 5(2)[OF refl nb True] l na no
        have "parseOr rx (?s2 @ x) = Inr (rule, skipWhitespace (s3 @ x))" by blast
        then have l': "parseOr rx (skipWhitespace (drop 1 ?s1 @ x)) = Inr (rule, skipWhitespace s3 @ x)"
          by (simp only: parseOr_skip_append sk3)
        have sk4: "skipWhitespace (skipWhitespace s3 @ x) = skipWhitespace s3 @ x"
          using sk3 by (simp add: skipWhitespace_append)
        have cl': "matchChar CHR '')'' (skipWhitespace s3 @ x)" by (rule matchChar_append[OF cl])
        have dr3: "drop 1 (skipWhitespace s3 @ x) = drop 1 (skipWhitespace s3) @ x"
          by (rule matchChar_drop_append[OF cl])
        show ?thesis
          by (subst parseUnary.simps) (simp only: Let_def sk m nm dr l' sk4 cl' dr3 e if_True if_False not_True_eq_False not_False_eq_True sum.case prod.case)
      next
        case False
        with nb a have pm: "parseMatcher rx ?s1 = Inr (t, r)"
          by (subst (asm) parseUnary.simps) (simp add: Let_def)
        then have "?s1 \<noteq> []"
          by (auto simp: parseMatcher_def Let_def skipWhitespace_Nil split: if_splits)
        then have sk: "skipWhitespace (s @ x) = ?s1 @ x" by (rule skipWhitespace_append_ne)
        from \<open>?s1 \<noteq> []\<close> nb False have nm: "\<not> matchChar CHR ''!'' (?s1 @ x)" "\<not> matchChar CHR ''('' (?s1 @ x)"
          by (simp_all add: matchChar_append_ne)
        from parseMatcher_append[OF pm] have "parseMatcher rx (?s1 @ x) = Inr (t, r @ x)" .
        then show ?thesis
          by (subst parseUnary.simps) (simp only: Let_def sk nm if_True if_False not_True_eq_False not_False_eq_True sum.case prod.case)
      qed
    qed
  qed
qed

text \<open>One iteration of each loop, and the parse of an operand that is not followed by its
  operator.\<close>

lemma parseAndLoop_stop:
  "\<not> matchString ''&&'' (skipWhitespace s) \<Longrightarrow> parseAndLoop rx l s = Inr (l, skipWhitespace s)"
  by (subst parseAndLoop.simps) (simp add: Let_def)

lemma parseOrLoop_stop:
  "\<not> matchString ''||'' (skipWhitespace s) \<Longrightarrow> parseOrLoop rx l s = Inr (l, skipWhitespace s)"
  by (subst parseOrLoop.simps) (simp add: Let_def)

lemma parseAndLoop_go:
  "matchString ''&&'' (skipWhitespace s) \<Longrightarrow>
     parseAndLoop rx l s =
       (case parseUnary rx (drop 2 (skipWhitespace s)) of
          Inl e \<Rightarrow> Inl e
        | Inr (right, s2) \<Rightarrow> parseAndLoop rx (AndRule l right) s2)"
  by (subst parseAndLoop.simps) (simp add: Let_def parseUnary_skip)

lemma parseOrLoop_go:
  "matchString ''||'' (skipWhitespace s) \<Longrightarrow>
     parseOrLoop rx l s =
       (case parseAnd rx (drop 2 (skipWhitespace s)) of
          Inl e \<Rightarrow> Inl e
        | Inr (right, s2) \<Rightarrow> parseOrLoop rx (OrRule l right) s2)"
  by (subst parseOrLoop.simps) (simp add: Let_def parseAnd_skip)

lemma parseAnd_single:
  "parseUnary rx s = Inr (t, r) \<Longrightarrow> \<not> matchString ''&&'' (skipWhitespace r) \<Longrightarrow>
     parseAnd rx s = Inr (t, skipWhitespace r)"
  by (subst parseAnd.simps) (simp add: parseAndLoop_stop)

lemma parseOr_single:
  "parseAnd rx s = Inr (t, r) \<Longrightarrow> \<not> matchString ''||'' (skipWhitespace r) \<Longrightarrow>
     parseOr rx s = Inr (t, skipWhitespace r)"
  by (subst parseOr.simps) (simp add: parseOrLoop_stop)

lemma skipWhitespace_space: "skipWhitespace (CHR '' '' # s) = skipWhitespace s"
  by (simp add: skipWhitespace_def)

lemma parseUnary_space: "parseUnary rx (CHR '' '' # s) = parseUnary rx s"
  using parseUnary_skip[of rx "CHR '' '' # s"] parseUnary_skip[of rx s]
  by (simp add: skipWhitespace_space)

lemma parseUnary_then:
  "parseUnary rx a = Inr (t, []) \<Longrightarrow> parseUnary rx (a @ x) = Inr (t, x)"
  using parse_append(5)[of rx a] by (metis append_Nil)

text \<open>An operand followed by nothing, by \<open> && \<close> and more, by \<open> || \<close> and more, or by a
  closing parenthesis.\<close>

lemma parseAnd_operand_end:
  assumes "parseUnary rx a = Inr (t, [])"
  shows "parseAnd rx a = Inr (t, [])"
  using parseAnd_single[OF assms] by (simp add: skipWhitespace_Nil matchString_def)

lemma parseAnd_operand_or:
  assumes "parseUnary rx a = Inr (t, [])"
  shows "parseAnd rx (a @ '' || '' @ x) = Inr (t, ''|| '' @ x)"
proof -
  have k: "skipWhitespace ('' || '' @ x) = ''|| '' @ x" by (simp add: skipWhitespace_def)
  from parseUnary_then[OF assms] have "parseUnary rx (a @ '' || '' @ x) = Inr (t, '' || '' @ x)" .
  from parseAnd_single[OF this] k show ?thesis by (simp add: matchString_def)
qed

lemma parseAnd_operand_close:
  assumes "parseUnary rx a = Inr (t, [])"
  shows "parseAnd rx (a @ '')'' @ x) = Inr (t, '')'' @ x)"
proof -
  have k: "skipWhitespace ('')'' @ x) = '')'' @ x" by (simp add: skipWhitespace_def)
  from parseUnary_then[OF assms] have "parseUnary rx (a @ '')'' @ x) = Inr (t, '')'' @ x)" .
  from parseAnd_single[OF this] k show ?thesis by (simp add: matchString_def)
qed

lemma parseAnd_two_operands:
  assumes "parseUnary rx a = Inr (ta, [])" and "parseUnary rx b = Inr (tb, [])"
  shows "parseAnd rx (a @ '' && '' @ b) = Inr (AndRule ta tb, [])"
proof -
  have k: "skipWhitespace ('' && '' @ b) = ''&& '' @ b" by (simp add: skipWhitespace_def)
  have m: "matchString ''&&'' (''&& '' @ b)" by (simp add: matchString_def)
  from parseUnary_then[OF assms(1)] have u: "parseUnary rx (a @ '' && '' @ b) = Inr (ta, '' && '' @ b)" .
  have "parseAndLoop rx ta ('' && '' @ b) = parseAndLoop rx (AndRule ta tb) []"
    using parseAndLoop_go[of "'' && '' @ b" rx ta] k m assms(2)
    by (simp add: parseUnary_space)
  also have "\<dots> = Inr (AndRule ta tb, [])"
    by (simp add: parseAndLoop_stop skipWhitespace_Nil matchString_def)
  finally show ?thesis using u by (subst parseAnd.simps) simp
qed

text \<open>
  The shape of a successful parse: what is returned is a suffix of the input; an operand
  starts (after blanks) with an ASCII byte that is not white space and ends with a closing
  brace or parenthesis.
\<close>

lemma skipWhitespace_suffix: "\<exists>w. s = w @ skipWhitespace s \<and> list_all isSpace w"
proof -
  let ?P = "\<lambda>c. c = CHR '' '' \<or> c = CHR 0x09 \<or> c = CHR 0x0A \<or> c = CHR 0x0D"
  have "s = takeWhile ?P s @ skipWhitespace s"
    by (simp add: skipWhitespace_def)
  moreover have "list_all isSpace (takeWhile ?P s)"
    unfolding list_all_iff
  proof
    fix c assume "c \<in> set (takeWhile ?P s)"
    then have "?P c" by (rule set_takeWhileD[THEN conjunct2])
    then show "isSpace c" by (auto simp: isSpace_def)
  qed
  ultimately show ?thesis by blast
qed

lemma scanValue_split:
  "scanValue d a = (0, v, r) \<Longrightarrow> d > 0 \<Longrightarrow> \<exists>r'. a = v @ CHR ''}'' # r' \<and> r = CHR ''}'' # r'"
proof (induction a arbitrary: d v r)
  case Nil
  then show ?case by simp
next
  case (Cons c cs)
  let ?d = "(if c = CHR ''{'' then d + 1 else if c = CHR ''}'' then d - 1 else d)"
  show ?case
  proof (cases "?d > 0")
    case True
    obtain d2 v2 r2 where sv: "scanValue ?d cs = (d2, v2, r2)"
      by (cases "scanValue ?d cs") auto
    with Cons.prems True have e: "d2 = 0" "v = c # v2" "r = r2"
      by (auto simp: Let_def split: if_splits)
    from Cons.IH[OF sv[unfolded e(1)] True] e show ?thesis by auto
  next
    case False
    with Cons.prems have "v = []" "r = c # cs" "c = CHR ''}''"
      by (auto simp: Let_def split: if_splits)
    then show ?thesis by simp
  qed
qed

lemma createMatcher_name:
  "createMatcher rx name v = Inr t \<Longrightarrow>
     name \<in> {''Host'', ''Path'', ''PathPrefix'', ''Method'', ''Header'', ''HeaderRegex'', ''Query''}"
  by (auto simp: createMatcher_def split: if_splits)

lemma parseMatcher_shape:
  assumes "parseMatcher rx s = Inr (t, r)"
  shows "(\<exists>p. s = p @ r \<and> p \<noteq> [] \<and> last p = CHR ''}'') \<and>
         skipWhitespace s \<noteq> [] \<and> plainByte (hd (skipWhitespace s))"
proof -
  let ?P = "\<lambda>c. c \<noteq> CHR ''{'' \<and> c \<noteq> CHR '' ''"
  let ?s0 = "skipWhitespace s"
  let ?name = "takeWhile ?P ?s0"
  let ?s1 = "dropWhile ?P ?s0"
  let ?s2 = "skipWhitespace ?s1"
  from assms have name: "?name \<noteq> []" and br: "matchChar CHR ''{'' ?s2"
    by (auto simp: parseMatcher_def Let_def split: if_splits)
  obtain d v s3 where sv: "scanValue 1 (drop 1 ?s2) = (d, v, s3)"
    by (cases "scanValue 1 (drop 1 ?s2)") auto
  from assms name br sv have d: "d = 0"
    by (auto simp: parseMatcher_def Let_def split: if_splits)
  from assms name br sv d obtain rule where cm: "createMatcher rx ?name v = Inr rule"
    and res: "r = drop 1 s3"
    by (auto simp: parseMatcher_def Let_def split: if_splits sum.splits)
  from scanValue_split[OF sv[unfolded d]] obtain r' where
    sp: "drop 1 ?s2 = v @ CHR ''}'' # r'" "s3 = CHR ''}'' # r'" by auto
  with res have r: "r = r'" by simp
  obtain w0 where w0: "s = w0 @ ?s0" using skipWhitespace_suffix[of s] by blast
  have n: "?s0 = ?name @ ?s1" by simp
  obtain w1 where w1: "?s1 = w1 @ ?s2" using skipWhitespace_suffix[of ?s1] by blast
  from br have "?s2 = CHR ''{'' # drop 1 ?s2" by (cases ?s2) (auto simp: matchChar_def)
  with sp(1) r have s2: "?s2 = (CHR ''{'' # v @ [CHR ''}'']) @ r" by simp
  have "s = (w0 @ ?name @ w1 @ CHR ''{'' # v @ [CHR ''}'']) @ r"
    using w0 n w1 s2 by (metis append_assoc)
  then have shape: "\<exists>p. s = p @ r \<and> p \<noteq> [] \<and> last p = CHR ''}''"
    by (intro exI[of _ "w0 @ ?name @ w1 @ CHR ''{'' # v @ [CHR ''}'']"]) simp
  from name have s0: "?s0 \<noteq> []" by auto
  from name have "hd ?s0 = hd ?name" by (cases ?s0) (auto split: if_splits)
  moreover from createMatcher_name[OF cm] have "plainByte (hd ?name)"
    by (auto simp: plainByte_def isSpace_def)
  ultimately have "plainByte (hd ?s0)" by simp
  with shape s0 show ?thesis by blast
qed


lemma suffix_trans: "\<exists>p. s = p @ s1 \<Longrightarrow> \<exists>p. s1 = p @ r \<Longrightarrow> \<exists>p. s = p @ (r::string)"
  by (metis append_assoc)

lemma suffix_skip: "\<exists>p. s = p @ skipWhitespace s"
  using skipWhitespace_suffix[of s] by blast

lemma suffix_skip_drop: "\<exists>p. s = p @ skipWhitespace (drop n (skipWhitespace s))"
proof -
  have "\<exists>p. skipWhitespace s = p @ drop n (skipWhitespace s)"
    by (metis append_take_drop_id)
  from suffix_trans[OF suffix_skip this] have "\<exists>p. s = p @ drop n (skipWhitespace s)" .
  from suffix_trans[OF this suffix_skip] show ?thesis .
qed

lemma parse_shape:
  "\<forall>t r. parseOr rx s = Inr (t, r) \<longrightarrow> (\<exists>p. s = p @ r)"
  "\<forall>t r. parseOrLoop rx left s = Inr (t, r) \<longrightarrow> (\<exists>p. s = p @ r)"
  "\<forall>t r. parseAnd rx s = Inr (t, r) \<longrightarrow> (\<exists>p. s = p @ r)"
  "\<forall>t r. parseAndLoop rx left s = Inr (t, r) \<longrightarrow> (\<exists>p. s = p @ r)"
  "\<forall>t r. parseUnary rx s = Inr (t, r) \<longrightarrow> (\<exists>p. s = p @ r \<and> p \<noteq> [] \<and> plainByte (last p))"
proof (induct rx s and rx left s and rx s and rx left s and rx s
    rule: parseOr_parseOrLoop_parseAnd_parseAndLoop_parseUnary.induct)
  case (1 rx s)
  show ?case
  proof (intro allI impI)
    fix t r assume a: "parseOr rx s = Inr (t, r)"
    from a obtain left s1 where l: "parseAnd rx s = Inr (left, s1)"
      and lp: "parseOrLoop rx left s1 = Inr (t, r)"
      by (subst (asm) parseOr.simps) (auto split: sum.splits)
    from 1(1) l have "\<exists>p. s = p @ s1" by blast
    moreover from 1(2)[OF l refl] lp have "\<exists>p. s1 = p @ r" by blast
    ultimately show "\<exists>p. s = p @ r" by (rule suffix_trans)
  qed
next
  case (2 rx left s)
  show ?case
  proof (intro allI impI)
    fix t r assume a: "parseOrLoop rx left s = Inr (t, r)"
    let ?s1 = "skipWhitespace s"
    show "\<exists>p. s = p @ r"
    proof (cases "matchString ''||'' ?s1")
      case False
      with a have "r = ?s1"
        by (subst (asm) parseOrLoop.simps) (simp add: Let_def)
      with suffix_skip[of s] show ?thesis by simp
    next
      case True
      let ?s2 = "skipWhitespace (drop 2 ?s1)"
      from a True obtain right s3 where l: "parseAnd rx ?s2 = Inr (right, s3)"
        and lp: "parseOrLoop rx (OrRule left right) s3 = Inr (t, r)"
        by (subst (asm) parseOrLoop.simps) (auto simp: Let_def split: sum.splits)
      from 2(1)[OF refl] True l have "\<exists>p. ?s2 = p @ s3" by blast
      from suffix_trans[OF suffix_skip_drop this] have "\<exists>p. s = p @ s3" .
      moreover from 2(2)[OF refl _ l refl] True lp have "\<exists>p. s3 = p @ r" by blast
      ultimately show ?thesis by (rule suffix_trans)
    qed
  qed
next
  case (3 rx s)
  show ?case
  proof (intro allI impI)
    fix t r assume a: "parseAnd rx s = Inr (t, r)"
    from a obtain left s1 where l: "parseUnary rx s = Inr (left, s1)"
      and lp: "parseAndLoop rx left s1 = Inr (t, r)"
      by (subst (asm) parseAnd.simps) (auto split: sum.splits)
    from 3(1) l have "\<exists>p. s = p @ s1" by blast
    moreover from 3(2)[OF l refl] lp have "\<exists>p. s1 = p @ r" by blast
    ultimately show "\<exists>p. s = p @ r" by (rule suffix_trans)
  qed
next
  case (4 rx left s)
  show ?case
  proof (intro allI impI)
    fix t r assume a: "parseAndLoop rx left s = Inr (t, r)"
    let ?s1 = "skipWhitespace s"
    show "\<exists>p. s = p @ r"
    proof (cases "matchString ''&&'' ?s1")
      case False
      with a have "r = ?s1"
        by (subst (asm) parseAndLoop.simps) (simp add: Let_def)
      with suffix_skip[of s] show ?thesis by simp
    next
      case True
      let ?s2 = "skipWhitespace (drop 2 ?s1)"
      from a True obtain right s3 where l: "parseUnary rx ?s2 = Inr (right, s3)"
        and lp: "parseAndLoop rx (AndRule left right) s3 = Inr (t, r)"
        by (subst (asm) parseAndLoop.simps) (auto simp: Let_def split: sum.splits)
      from 4(1)[OF refl] True l have "\<exists>p. ?s2 = p @ s3" by blast
      from suffix_trans[OF suffix_skip_drop this] have "\<exists>p. s = p @ s3" .
      moreover from 4(2)[OF refl _ l refl] True lp have "\<exists>p. s3 = p @ r" by blast
      ultimately show ?thesis by (rule suffix_trans)
    qed
  qed
next
  case (5 rx s)
  show ?case
  proof (intro allI impI)
    fix t r assume a: "parseUnary rx s = Inr (t, r)"
    let ?s1 = "skipWhitespace s"
    let ?s2 = "skipWhitespace (drop 1 ?s1)"
    have pre: "\<exists>q. s = q @ ?s2" by (rule suffix_skip_drop)
    show "\<exists>p. s = p @ r \<and> p \<noteq> [] \<and> plainByte (last p)"
    proof (cases "matchChar CHR ''!'' ?s1")
      case True
      from a True obtain inner where l: "parseUnary rx ?s2 = Inr (inner, r)"
        by (subst (asm) parseUnary.simps) (auto simp: Let_def split: sum.splits)
      from 5(1)[OF refl True] l obtain p where p: "?s2 = p @ r" "p \<noteq> []" "plainByte (last p)"
        by blast
      from pre obtain q where "s = q @ ?s2" by blast
      with p have "s = (q @ p) @ r \<and> q @ p \<noteq> [] \<and> plainByte (last (q @ p))" by simp
      then show ?thesis by blast
    next
      case nb: False
      show ?thesis
      proof (cases "matchChar CHR ''('' ?s1")
        case True
        from a nb True obtain rule s3 where l: "parseOr rx ?s2 = Inr (rule, s3)"
          and cl: "matchChar CHR '')'' (skipWhitespace s3)"
          and e: "r = drop 1 (skipWhitespace s3)"
          by (subst (asm) parseUnary.simps) (auto simp: Let_def split: sum.splits if_splits)
        from 5(2)[OF refl nb True] l have "\<exists>p. ?s2 = p @ s3" by blast
        from suffix_trans[OF pre this] have "\<exists>p. s = p @ s3" .
        from suffix_trans[OF this suffix_skip] obtain q where q: "s = q @ skipWhitespace s3" by blast
        from cl e have "skipWhitespace s3 = CHR '')'' # r"
          by (cases "skipWhitespace s3") (auto simp: matchChar_def)
        with q have "s = (q @ '')'') @ r \<and> q @ '')'' \<noteq> [] \<and> plainByte (last (q @ '')''))"
          by (simp add: plainByte_def isSpace_def)
        then show ?thesis by blast
      next
        case False
        with nb a have pm: "parseMatcher rx ?s1 = Inr (t, r)"
          by (subst (asm) parseUnary.simps) (simp add: Let_def)
        from parseMatcher_shape[OF pm] obtain p where p: "?s1 = p @ r" "p \<noteq> []" "last p = CHR ''}''"
          by blast
        from suffix_skip[of s] obtain q where "s = q @ ?s1" by blast
        with p have "s = (q @ p) @ r \<and> q @ p \<noteq> [] \<and> plainByte (last (q @ p))"
          by (simp add: plainByte_def isSpace_def)
        then show ?thesis by blast
      qed
    qed
  qed
qed

lemma parseUnary_first:
  assumes "parseUnary rx s = Inr (t, r)"
  shows "skipWhitespace s \<noteq> [] \<and> plainByte (hd (skipWhitespace s))"
proof -
  let ?s1 = "skipWhitespace s"
  consider (n) "matchChar CHR ''!'' ?s1" | (p) "matchChar CHR ''('' ?s1"
    | (m) "\<not> matchChar CHR ''!'' ?s1" "\<not> matchChar CHR ''('' ?s1" by blast
  then show ?thesis
  proof cases
    case n
    then show ?thesis by (cases ?s1) (auto simp: matchChar_def plainByte_def isSpace_def)
  next
    case p
    then show ?thesis by (cases ?s1) (auto simp: matchChar_def plainByte_def isSpace_def)
  next
    case m
    with assms have "parseMatcher rx ?s1 = Inr (t, r)"
      by (subst (asm) parseUnary.simps) (simp add: Let_def)
    from parseMatcher_shape[OF this] show ?thesis by (simp add: skipWhitespace_idem)
  qed
qed

text \<open>The three inputs of the precedence claim, for the parser proper.\<close>

lemma operator_precedence_parse:
  assumes a: "parseUnary rx a = Inr (ta, [])"
    and b: "parseUnary rx b = Inr (tb, [])"
    and c: "parseUnary rx c = Inr (tc, [])"
  shows "parse rx (a @ '' || '' @ b @ '' && '' @ c) = Inr (OrRule ta (AndRule tb tc), []) \<and>
         parse rx (''!'' @ a @ '' && '' @ b) = Inr (AndRule (NotRule ta) tb, []) \<and>
         parse rx (''('' @ a @ '' || '' @ b @ '') && '' @ c) = Inr (AndRule (OrRule ta tb) tc, []) \<and>
         (\<forall>req. Match ms (OrRule ta (AndRule tb tc)) req
                  = (Match ms ta req \<or> (Match ms tb req \<and> Match ms tc req))) \<and>
         (\<forall>req. Match ms (AndRule (NotRule ta) tb) req
                  = ((\<not> Match ms ta req) \<and> Match ms tb req)) \<and>
         (\<forall>req. Match ms (AndRule (OrRule ta tb) tc) req
                  = ((Match ms ta req \<or> Match ms tb req) \<and> Match ms tc req))"
proof -
  have e: "parseOrLoop rx t [] = Inr (t, [])" for t
    by (simp add: parseOrLoop_stop skipWhitespace_Nil matchString_def)
  have p1: "parseOr rx (a @ '' || '' @ b @ '' && '' @ c) = Inr (OrRule ta (AndRule tb tc), [])"
  proof -
    have k: "skipWhitespace (''|| '' @ b @ '' && '' @ c) = ''|| '' @ b @ '' && '' @ c"
      by (simp add: skipWhitespace_def)
    have m: "matchString ''||'' (''|| '' @ b @ '' && '' @ c)" by (simp add: matchString_def)
    have r: "parseAnd rx ('' '' @ b @ '' && '' @ c) = Inr (AndRule tb tc, [])"
      using parseAnd_two_operands[of rx "'' '' @ b" tb c tc] b c
      by (simp add: parseUnary_space)
    have "parseOrLoop rx ta (''|| '' @ b @ '' && '' @ c) = parseOrLoop rx (OrRule ta (AndRule tb tc)) []"
      using parseOrLoop_go[of "''|| '' @ b @ '' && '' @ c" rx ta] k m r by simp
    with parseAnd_operand_or[OF a, of "b @ '' && '' @ c"] e show ?thesis
      by (subst parseOr.simps) simp
  qed
  have p2: "parseOr rx (''!'' @ a @ '' && '' @ b) = Inr (AndRule (NotRule ta) tb, [])"
  proof -
    have "parseUnary rx (''!'' @ a) = Inr (NotRule ta, [])"
      using a by (subst parseUnary.simps) (simp add: Let_def skipWhitespace_def matchChar_def
          parseUnary_skip[unfolded skipWhitespace_def])
    from parseAnd_two_operands[OF this b] have "parseAnd rx (''!'' @ a @ '' && '' @ b) = Inr (AndRule (NotRule ta) tb, [])"
      by simp
    with e show ?thesis by (subst parseOr.simps) simp
  qed
  have p3: "parseOr rx (''('' @ a @ '' || '' @ b @ '') && '' @ c) = Inr (AndRule (OrRule ta tb) tc, [])"
  proof -
    have k: "skipWhitespace (''|| '' @ b @ '')'' @ x) = ''|| '' @ b @ '')'' @ x" for x
      by (simp add: skipWhitespace_def)
    have m: "matchString ''||'' (''|| '' @ b @ '')'' @ x)" for x by (simp add: matchString_def)
    have r: "parseAnd rx ('' '' @ b @ '')'' @ x) = Inr (tb, '')'' @ x)" for x
      using parseAnd_operand_close[of rx "'' '' @ b" tb x] b by (simp add: parseUnary_space)
    have k2: "skipWhitespace ('')'' @ x) = '')'' @ x" for x by (simp add: skipWhitespace_def)
    have "parseOrLoop rx ta (''|| '' @ b @ '')'' @ x) = parseOrLoop rx (OrRule ta tb) ('')'' @ x)" for x
      using parseOrLoop_go[of "''|| '' @ b @ '')'' @ x" rx ta] k[of x] m[of x] r[of x] by simp
    also have "parseOrLoop rx (OrRule ta tb) ('')'' @ x) = Inr (OrRule ta tb, '')'' @ x)" for x
      using parseOrLoop_stop[of "'')'' @ x" rx "OrRule ta tb"] k2[of x] by (simp add: matchString_def)
    finally have lp: "parseOrLoop rx ta (''|| '' @ b @ '')'' @ x) = Inr (OrRule ta tb, '')'' @ x)" for x .
    have inner: "parseOr rx (a @ '' || '' @ b @ '')'' @ x) = Inr (OrRule ta tb, '')'' @ x)" for x
      using parseAnd_operand_or[OF a, of "b @ '')'' @ x"] lp[of x]
      by (subst parseOr.simps) simp
    have "parseUnary rx (''('' @ a @ '' || '' @ b @ '')'' @ x) = Inr (OrRule ta tb, x)" for x
      using inner[of x]
      by (subst parseUnary.simps) (simp add: Let_def skipWhitespace_def matchChar_def
          parseOr_skip[unfolded skipWhitespace_def])
    from this[of "[]"] have "parseUnary rx (''('' @ a @ '' || '' @ b @ '')'') = Inr (OrRule ta tb, [])"
      by simp
    from parseAnd_two_operands[OF this c]
    have "parseAnd rx (''('' @ a @ '' || '' @ b @ '') && '' @ c) = Inr (AndRule (OrRule ta tb) tc, [])"
      by simp
    with e show ?thesis by (subst parseOr.simps) simp
  qed
  from p1 p2 p3 show ?thesis by (simp add: parse_def)
qed

text \<open>\<open>TrimSpace\<close> on a rule made of operands: only blanks in front of the first operand go.
  White space neither starts nor ends with an ASCII byte that is not white space.\<close>

lemma spaceWidth_plain:
  assumes "s \<noteq> []" and "plainByte (hd s)"
    and "list_all (\<lambda>u. u \<noteq> [] \<and> \<not> plainByte (hd u)) encs"
  shows "spaceWidth encs s = 0"
proof -
  obtain c cs where s: "s = c # cs" using assms(1) by (cases s) auto
  with assms(2) have c: "\<not> isSpace c" "plainByte c" by (simp_all add: plainByte_def)
  have "find (\<lambda>u. take (length u) s = u) encs = None"
  proof (rule ccontr)
    assume "find (\<lambda>u. take (length u) s = u) encs \<noteq> None"
    then obtain u where u: "u \<in> set encs" "take (length u) s = u"
      by (auto simp: find_None_iff)
    with assms(3) have n: "u \<noteq> []" "\<not> plainByte (hd u)" by (auto simp: list_all_iff)
    from n(1) obtain d ds where d: "u = d # ds" by (cases u) auto
    with u(2) s have "d = c" by simp
    with n(2) d c(2) show False by simp
  qed
  with s c(1) show ?thesis by (simp add: spaceWidth_def)
qed

lemma trim_plain:
  assumes "s \<noteq> []" and "plainByte (hd s)"
    and "list_all (\<lambda>u. u \<noteq> [] \<and> \<not> plainByte (hd u)) encs"
  shows "trim encs s = s"
  by (subst trim.simps) (simp add: spaceWidth_plain[OF assms])

lemma trim_leading: "list_all isSpace w \<Longrightarrow> trim encs (w @ s) = trim encs s"
proof (induction w)
  case Nil
  then show ?case by simp
next
  case (Cons c w)
  then have "spaceWidth encs ((c # w) @ s) = 1" by (simp add: spaceWidth_def)
  then have "trim encs ((c # w) @ s) = trim encs (w @ s)"
    by (subst trim.simps) simp
  with Cons show ?case by simp
qed

lemma unicodeSpace_not_plain:
  "list_all (\<lambda>u. u \<noteq> [] \<and> \<not> plainByte (hd u)) unicodeSpace"
  "list_all (\<lambda>u. u \<noteq> [] \<and> \<not> plainByte (hd u)) (map rev unicodeSpace)"
  by (simp_all add: unicodeSpace_def plainByte_def)

lemma TrimSpace_id:
  assumes "s \<noteq> []" and "plainByte (hd s)" and "plainByte (last s)"
  shows "TrimSpace s = s"
proof -
  from assms(1,3) have "rev s \<noteq> []" "plainByte (hd (rev s))" by (simp_all add: hd_rev)
  then have "trim (map rev unicodeSpace) (rev s) = rev s"
    using unicodeSpace_not_plain(2) by (rule trim_plain)
  with trim_plain[OF assms(1,2) unicodeSpace_not_plain(1)] show ?thesis
    by (simp add: TrimSpace_def)
qed

lemma TrimSpace_leading:
  assumes "list_all isSpace w"
  shows "TrimSpace (w @ s) = TrimSpace s"
  using trim_leading[OF assms, of unicodeSpace s] by (simp add: TrimSpace_def)

lemma operand_trimmed:
  assumes "parseUnary rx a = Inr (t, [])"
  shows "\<exists>w a'. a = w @ a' \<and> list_all isSpace w \<and> a' \<noteq> [] \<and> plainByte (hd a') \<and>
           plainByte (last a') \<and> parseUnary rx a' = Inr (t, [])"
proof -
  let ?a = "skipWhitespace a"
  from skipWhitespace_suffix[of a] obtain w where w: "a = w @ ?a" "list_all isSpace w" by blast
  from parseUnary_first[OF assms] have f: "?a \<noteq> []" "plainByte (hd ?a)" by simp_all
  from parse_shape(5)[of rx a] assms have "plainByte (last a)" by auto
  with w(1) f(1) have l: "plainByte (last ?a)" by (metis last_appendR)
  from assms have "parseUnary rx ?a = Inr (t, [])" by (simp add: parseUnary_skip)
  with w f l show ?thesis by blast
qed

lemma operand_last:
  assumes "parseUnary rx a = Inr (t, [])"
  shows "a \<noteq> [] \<and> plainByte (last a)"
  using parse_shape(5)[of rx a] assms by auto

text \<open>
  C3. Precedence. Let \<open>A\<close>, \<open>B\<close>, \<open>C\<close> be operands: texts that \<open>parseUnary\<close> parses completely (a
  matcher, a negation, or any expression in parentheses), with trees \<open>ta\<close>, \<open>tb\<close>, \<open>tc\<close>. Then
  \<open>ParseRule\<close> returns \<open>Or ta (And tb tc)\<close> for \<open>A || B && C\<close>, \<open>And (Not ta) tb\<close> for \<open>!A && B\<close>
  and \<open>And (Or ta tb) tc\<close> for \<open>(A || B) && C\<close>; the parser consumes all of the input; and the
  trees evaluate accordingly on every request: \<open>!\<close> binds tightest, then \<open>&&\<close>, then \<open>||\<close>,
  and parentheses override.
\<close>

theorem operator_precedence:
  assumes a: "parseUnary rx a = Inr (ta, [])"
    and b: "parseUnary rx b = Inr (tb, [])"
    and c: "parseUnary rx c = Inr (tc, [])"
  shows "ParseRule rx (a @ '' || '' @ b @ '' && '' @ c) = Inr (OrRule ta (AndRule tb tc)) \<and>
         ParseRule rx (''!'' @ a @ '' && '' @ b) = Inr (AndRule (NotRule ta) tb) \<and>
         ParseRule rx (''('' @ a @ '' || '' @ b @ '') && '' @ c) = Inr (AndRule (OrRule ta tb) tc) \<and>
         parse rx (a @ '' || '' @ b @ '' && '' @ c) = Inr (OrRule ta (AndRule tb tc), []) \<and>
         parse rx (''!'' @ a @ '' && '' @ b) = Inr (AndRule (NotRule ta) tb, []) \<and>
         parse rx (''('' @ a @ '' || '' @ b @ '') && '' @ c) = Inr (AndRule (OrRule ta tb) tc, []) \<and>
         (\<forall>req. Match ms (OrRule ta (AndRule tb tc)) req
                  = (Match ms ta req \<or> (Match ms tb req \<and> Match ms tc req))) \<and>
         (\<forall>req. Match ms (AndRule (NotRule ta) tb) req
                  = ((\<not> Match ms ta req) \<and> Match ms tb req)) \<and>
         (\<forall>req. Match ms (AndRule (OrRule ta tb) tc) req
                  = ((Match ms ta req \<or> Match ms tb req) \<and> Match ms tc req))"
proof -
  note pl = operator_precedence_parse[OF a b c, of ms]
  from operand_trimmed[OF a] obtain w a' where a': "a = w @ a'" "list_all isSpace w" "a' \<noteq> []"
    "plainByte (hd a')" "parseUnary rx a' = Inr (ta, [])" by blast
  from operand_last[OF b] have lb: "b \<noteq> []" "plainByte (last b)" by simp_all
  from operand_last[OF c] have lc: "c \<noteq> []" "plainByte (last c)" by simp_all
  have t1: "TrimSpace (a @ '' || '' @ b @ '' && '' @ c) = a' @ '' || '' @ b @ '' && '' @ c"
  proof -
    have "TrimSpace (a @ '' || '' @ b @ '' && '' @ c) = TrimSpace (a' @ '' || '' @ b @ '' && '' @ c)"
      using TrimSpace_leading[OF a'(2), of "a' @ '' || '' @ b @ '' && '' @ c"] a'(1) by simp
    also have "\<dots> = a' @ '' || '' @ b @ '' && '' @ c"
      by (rule TrimSpace_id) (use a'(3,4) lc in \<open>simp_all add: hd_append\<close>)
    finally show ?thesis .
  qed
  have t2: "TrimSpace (''!'' @ a @ '' && '' @ b) = ''!'' @ a @ '' && '' @ b"
    by (rule TrimSpace_id) (use lb in \<open>simp_all add: plainByte_def isSpace_def\<close>)
  have t3: "TrimSpace (''('' @ a @ '' || '' @ b @ '') && '' @ c) = ''('' @ a @ '' || '' @ b @ '') && '' @ c"
    by (rule TrimSpace_id) (use lc in \<open>simp_all add: plainByte_def isSpace_def\<close>)
  from operator_precedence_parse[OF a'(5) b c, of ms]
  have "parse rx (a' @ '' || '' @ b @ '' && '' @ c) = Inr (OrRule ta (AndRule tb tc), [])" by blast
  with t1 have r1: "ParseRule rx (a @ '' || '' @ b @ '' && '' @ c) = Inr (OrRule ta (AndRule tb tc))"
    by (simp add: ParseRule_def)
  from pl t2 have r2: "ParseRule rx (''!'' @ a @ '' && '' @ b) = Inr (AndRule (NotRule ta) tb)"
    by (simp add: ParseRule_def)
  from pl t3 have r3: "ParseRule rx (''('' @ a @ '' || '' @ b @ '') && '' @ c) = Inr (AndRule (OrRule ta tb) tc)"
    by (simp add: ParseRule_def)
  from r1 r2 r3 pl show ?thesis by blast
qed

theorem operator_precedence_witness:
  "parseUnary (\<lambda>_. True) ''Host{a}'' = Inr (HostMatcher ''a'', []) \<and>
   parseUnary (\<lambda>_. True) ''!Path{/health}'' = Inr (NotRule (PathMatcher ''/health''), []) \<and>
   parseUnary (\<lambda>_. True) ''(Method{GET} || Method{POST})''
     = Inr (OrRule (MethodMatcher [''GET'']) (MethodMatcher [''POST'']), []) \<and>
   ParseRule (\<lambda>_. True) (''Host{a}'' @ '' || '' @ ''!Path{/health}'' @ '' && '' @ ''(Method{GET} || Method{POST})'')
     = Inr (OrRule (HostMatcher ''a'')
              (AndRule (NotRule (PathMatcher ''/health''))
                 (OrRule (MethodMatcher [''GET'']) (MethodMatcher [''POST''])))) \<and>
   ParseRule (\<lambda>_. True) (''!'' @ ''Host{a}'' @ '' && '' @ ''!Path{/health}'')
     = Inr (AndRule (NotRule (HostMatcher ''a'')) (NotRule (PathMatcher ''/health''))) \<and>
   ParseRule (\<lambda>_. True) (''('' @ ''Host{a}'' @ '' || '' @ ''!Path{/health}'' @ '') && '' @
                           ''(Method{GET} || Method{POST})'')
     = Inr (AndRule (OrRule (HostMatcher ''a'') (NotRule (PathMatcher ''/health'')))
              (OrRule (MethodMatcher [''GET'']) (MethodMatcher [''POST''])))"
proof -
  have a: "parseUnary (\<lambda>_. True) ''Host{a}'' = Inr (HostMatcher ''a'', [])" by code_simp
  have b: "parseUnary (\<lambda>_. True) ''!Path{/health}'' = Inr (NotRule (PathMatcher ''/health''), [])"
    by code_simp
  have c: "parseUnary (\<lambda>_. True) ''(Method{GET} || Method{POST})''
     = Inr (OrRule (MethodMatcher [''GET'']) (MethodMatcher [''POST'']), [])"
    by code_simp
  from operator_precedence[OF a b c, of "\<lambda>_ _. False"] a b c show ?thesis by blast
qed

text \<open>
  C9. Whitespace between tokens. \<open>skipWhitespace\<close> treats space, tab, line feed and carriage
  return as whitespace, and \<open>parseMatcher\<close> calls it between the matcher name and the opening
  brace. But the loop that reads the name stops only at \<open>{\<close> and at a space: a tab (line
  feed, carriage return) after the name becomes part of the name, and the rule is rejected
  as an unknown matcher, while the same rule without the tab, or with a space, parses.
\<close>

theorem tab_after_matcher_name_is_rejected:
  "ParseRule (\<lambda>_. True) ''Host{a}'' = Inr (HostMatcher ''a'') \<and>
   ParseRule (\<lambda>_. True) ''Host {a}'' = Inr (HostMatcher ''a'') \<and>
   ParseRule (\<lambda>_. True) (''Host'' @ [CHR 0x09] @ ''{a}'') = Inl (UnknownMatcher (''Host'' @ [CHR 0x09])) \<and>
   ParseRule (\<lambda>_. True) (''Host'' @ [CHR 0x0A] @ ''{a}'') = Inl (UnknownMatcher (''Host'' @ [CHR 0x0A])) \<and>
   ParseRule (\<lambda>_. True) (''Host'' @ [CHR 0x0D] @ ''{a}'') = Inl (UnknownMatcher (''Host'' @ [CHR 0x0D])) \<and>
   ParseRule (\<lambda>_. True) (''!'' @ [CHR 0x09] @ ''Host{a}'' @ [CHR 0x09] @ ''&&'' @ [CHR 0x0A] @ ''Path{/}'')
     = Inr (AndRule (NotRule (HostMatcher ''a'')) (PathMatcher ''/''))"
  by code_simp

text \<open>
  C10. \<open>ParseRule\<close> does not look at what the parser left unread. When the trimmed input is
  a rule \<open>R\<close> that parses completely, followed by text \<open>y\<close> that does not continue it with
  \<open>&&\<close> or \<open>||\<close>, \<open>ParseRule\<close> succeeds with the tree of \<open>R\<close>; the parser stops in front
  of the first non-blank byte of \<open>y\<close>, and that remainder is dropped without an error.
\<close>

theorem ParseRule_ignores_trailing_text:
  assumes R: "parse rx R = Inr (t, [])"
    and s: "TrimSpace s = R @ y"
    and na: "\<not> matchString ''&&'' (skipWhitespace y)"
    and no: "\<not> matchString ''||'' (skipWhitespace y)"
  shows "parse rx (TrimSpace s) = Inr (t, skipWhitespace y) \<and> ParseRule rx s = Inr t"
proof -
  from R have "parseOr rx R = Inr (t, [])" by (simp add: parse_def)
  with parse_append(1)[of rx R] na no have "parseOr rx (R @ y) = Inr (t, skipWhitespace y)"
    by (metis append_Nil)
  with s show ?thesis by (simp add: parse_def ParseRule_def)
qed

text \<open>The two inputs named in the claim.\<close>

theorem ParseRule_ignores_trailing_text_witness:
  "parse (\<lambda>_. True) ''Host{a}'' = Inr (HostMatcher ''a'', []) \<and>
   TrimSpace ''Host{a} Host{b}'' = ''Host{a}'' @ '' Host{b}'' \<and>
   \<not> matchString ''&&'' (skipWhitespace '' Host{b}'') \<and>
   \<not> matchString ''||'' (skipWhitespace '' Host{b}'') \<and>
   parse (\<lambda>_. True) (TrimSpace ''Host{a} Host{b}'') = Inr (HostMatcher ''a'', ''Host{b}'') \<and>
   ParseRule (\<lambda>_. True) ''Host{a} Host{b}'' = Inr (HostMatcher ''a'') \<and>
   TrimSpace ''Host{a} | Host{b}'' = ''Host{a}'' @ '' | Host{b}'' \<and>
   \<not> matchString ''&&'' (skipWhitespace '' | Host{b}'') \<and>
   \<not> matchString ''||'' (skipWhitespace '' | Host{b}'') \<and>
   parse (\<lambda>_. True) (TrimSpace ''Host{a} | Host{b}'') = Inr (HostMatcher ''a'', ''| Host{b}'') \<and>
   ParseRule (\<lambda>_. True) ''Host{a} | Host{b}'' = Inr (HostMatcher ''a'')"
proof -
  have R: "parse (\<lambda>_. True) ''Host{a}'' = Inr (HostMatcher ''a'', [])" by code_simp
  have s1: "TrimSpace ''Host{a} Host{b}'' = ''Host{a}'' @ '' Host{b}''" by code_simp
  have s2: "TrimSpace ''Host{a} | Host{b}'' = ''Host{a}'' @ '' | Host{b}''" by code_simp
  have k1: "skipWhitespace '' Host{b}'' = ''Host{b}''" by code_simp
  have k2: "skipWhitespace '' | Host{b}'' = ''| Host{b}''" by code_simp
  have n1: "\<not> matchString ''&&'' (skipWhitespace '' Host{b}'')"
    "\<not> matchString ''||'' (skipWhitespace '' Host{b}'')" by code_simp+
  have n2: "\<not> matchString ''&&'' (skipWhitespace '' | Host{b}'')"
    "\<not> matchString ''||'' (skipWhitespace '' | Host{b}'')" by code_simp+
  from ParseRule_ignores_trailing_text[OF R s1 n1] ParseRule_ignores_trailing_text[OF R s2 n2]
    R s1 s2 n1 n2 k1 k2
  show ?thesis by simp
qed


end
